theory Spec2Isabelle
  imports Complex_Main "HOL-Library.AList" "HOL-Library.Multiset"
begin

section \<open>JavaScript values\<close>

text \<open>
  A JavaScript number is \<open>NaN\<close>, an infinity or a finite double. A finite double is
  kept as the real number it denotes. \<open>-0\<close> and \<open>+0\<close> are one key of a \<open>Map\<close>
  (SameValueZero) and compare equal, so both are \<open>Fin 0\<close>; \<open>NaN\<close> is a key equal to
  itself, as the constructor is.
\<close>

datatype jsnum = NaN | NInf | Fin real | PInf

text \<open>
  \<open>a - b\<close> on numbers. For finite doubles JavaScript rounds the difference; the
  rounded difference has the sign of the exact one (it is zero only for equal operands),
  and the comparator below is read through its sign only.
\<close>

fun js_minus :: "jsnum \<Rightarrow> jsnum \<Rightarrow> jsnum" where
  "js_minus NaN b = NaN"
| "js_minus a NaN = NaN"
| "js_minus PInf PInf = NaN"
| "js_minus NInf NInf = NaN"
| "js_minus PInf b = PInf"
| "js_minus NInf b = NInf"
| "js_minus (Fin a) PInf = NInf"
| "js_minus (Fin a) NInf = PInf"
| "js_minus (Fin a) (Fin b) = Fin (a - b)"

fun js_positive :: "jsnum \<Rightarrow> bool" where
  "js_positive PInf = True"
| "js_positive (Fin r) = (0 < r)"
| "js_positive NaN = False"
| "js_positive NInf = False"

text \<open>
  \<open>Array.prototype.sort(comparefn)\<close>: a stable sort that puts \<open>x\<close> after \<open>y\<close> only
  when \<open>comparefn(x, y) > 0\<close>; a comparator result \<open>NaN\<close> counts as \<open>+0\<close>. When the
  comparator is consistent every conforming sort returns the list computed here. When it
  is not (a \<open>NaN\<close> key among several), ECMAScript leaves the order to the
  implementation: the insertion sort below is then one possible engine, and the theorems
  of this file either keep \<open>NaN\<close> out of the keys or hold whatever order a
  deterministic engine chooses.
\<close>

fun insort_by :: "('a \<Rightarrow> 'a \<Rightarrow> jsnum) \<Rightarrow> 'a \<Rightarrow> 'a list \<Rightarrow> 'a list" where
  "insort_by cmp x [] = [x]"
| "insort_by cmp x (y # ys) =
     (if js_positive (cmp x y) then y # insort_by cmp x ys else x # y # ys)"

definition js_sort :: "('a \<Rightarrow> 'a \<Rightarrow> jsnum) \<Rightarrow> 'a list \<Rightarrow> 'a list" where
  "js_sort cmp xs = foldr (insort_by cmp) xs []"

text \<open>The numeric order \<open>a < b\<close> of JavaScript; \<open>NaN\<close> is below and above nothing.\<close>

fun js_less :: "jsnum \<Rightarrow> jsnum \<Rightarrow> bool" where
  "js_less NaN b = False"
| "js_less a NaN = False"
| "js_less a NInf = False"
| "js_less NInf b = True"
| "js_less PInf b = False"
| "js_less (Fin a) PInf = True"
| "js_less (Fin a) (Fin b) = (a < b)"

text \<open>A value of type \<open>string | number\<close>, as \<open>turn_id\<close> and \<open>delta_counter\<close> are.\<close>

datatype strnum = Str string | Num jsnum

text \<open>
  The two built-in coercions the component calls, \<open>Number(s)\<close> on a string and
  \<open>String(n)\<close> on a number, are parameters of the model: every theorem below holds for
  all of them, so for ECMAScript's own.
\<close>

record js_builtins =
  Number_str :: "string \<Rightarrow> jsnum"
  String_num :: "jsnum \<Rightarrow> string"

fun js_String :: "js_builtins \<Rightarrow> strnum \<Rightarrow> string" where
  "js_String B (Str s) = s"
| "js_String B (Num n) = String_num B n"

text \<open>Truthiness of a value of type \<open>string | undefined\<close>: only a non-empty string is truthy.\<close>

fun truthy :: "string option \<Rightarrow> bool" where
  "truthy None = False"
| "truthy (Some s) = (s \<noteq> [])"

text \<open>
  \<open>String.prototype.includes\<close>. The patterns searched for are ASCII, and an ASCII
  byte never lies inside a multi-byte character, so containment on bytes is containment
  on JavaScript's code units.
\<close>

fun starts_with :: "string \<Rightarrow> string \<Rightarrow> bool" where
  "starts_with s [] = True"
| "starts_with [] (p # ps) = False"
| "starts_with (c # cs) (p # ps) = (c = p \<and> starts_with cs ps)"

fun js_includes :: "string \<Rightarrow> string \<Rightarrow> bool" where
  "js_includes [] p = (p = [])"
| "js_includes (c # cs) p = (starts_with (c # cs) p \<or> js_includes cs p)"

text \<open>An awaited call either returns or throws an error with a message.\<close>

datatype 'a outcome = Throws string | Returns 'a

section \<open>The data model of \<open>components/VoiceAgentDemo.tsx\<close>\<close>

datatype Role = User | Assistant | System

text \<open>
  The field \<open>text\<close> of \<open>TranscriptChunk\<close> and of \<open>Message\<close> is \<open>chunk_text\<close> and
  \<open>msg_text\<close> here. An optional field is an \<open>option\<close>; \<open>None\<close> stands for \<open>undefined\<close>
  and, in an inbound event, for \<open>null\<close> as well (the code tests both with \<open>!= null\<close>).
\<close>

record TranscriptChunk =
  counter :: jsnum
  chunk_text :: string

record Message =
  role :: Role
  msg_text :: string
  turnId :: "string option"
  chunks :: "TranscriptChunk list option"

record AgentEvent =
  type :: "string option"
  turn_id :: "strnum option"
  delta_counter :: "strnum option"
  content :: "string option"

text \<open>
  \<open>TurnChunkMap = Map<string, Map<number, string>>\<close>. The inner \<open>Map\<close> iterates in
  insertion order and \<open>set\<close> on a key it holds keeps the key's place: an association
  list under \<open>AList.update\<close>. The outer \<open>Map\<close> is only read, written and deleted by key.
\<close>

type_synonym TurnChunkMap = "string \<rightharpoonup> (jsnum \<times> string) list"

text \<open>The state of the component: the three \<open>useState\<close> cells and the \<open>useRef\<close>.\<close>

record state =
  messages :: "Message list"
  isSessionActive :: bool
  error :: "string option"
  userChunksByTurn :: TurnChunkMap

definition initial :: state where
  "initial = \<lparr>messages = [], isSessionActive = False, error = None,
     userChunksByTurn = Map.empty\<rparr>"

section \<open>The Message Ledger\<close>

definition setMessages :: "(Message list \<Rightarrow> Message list) \<Rightarrow> state \<Rightarrow> state" where
  "setMessages f s = s\<lparr>messages := f (messages s)\<rparr>"

definition appendSystemMessage :: "string \<Rightarrow> state \<Rightarrow> state" where
  "appendSystemMessage txt s =
     setMessages (\<lambda>prev. prev @ [\<lparr>role = System, msg_text = txt, turnId = None, chunks = None\<rparr>]) s"

text \<open>\<open>Array.prototype.findIndex\<close>: the first index whose element passes, \<open>None\<close> for \<open>-1\<close>.\<close>

fun findIndex :: "('a \<Rightarrow> bool) \<Rightarrow> 'a list \<Rightarrow> nat option" where
  "findIndex P [] = None"
| "findIndex P (x # xs) = (if P x then Some 0 else map_option Suc (findIndex P xs))"

text \<open>
  The updater that \<open>upsertMessage\<close> hands to \<open>setMessages\<close>; \<open>replace\<close> is
  \<open>opts.replace\<close>, \<open>False\<close> when the caller passes no options.
\<close>

definition upsertMessage_updater :: "Message \<Rightarrow> bool \<Rightarrow> Message list \<Rightarrow> Message list" where
  "upsertMessage_updater nxt replace prev =
     (if \<not> truthy (turnId nxt) then prev @ [nxt]
      else
        (case findIndex (\<lambda>msg. turnId msg = turnId nxt \<and> role msg = role nxt) prev of
           None \<Rightarrow> prev @ [nxt]
         | Some index \<Rightarrow>
             (let current = prev ! index in
              prev[index := current\<lparr>
                msg_text := (if replace then msg_text nxt else msg_text current @ msg_text nxt),
                chunks := (case chunks nxt of Some c \<Rightarrow> Some c | None \<Rightarrow> chunks current)\<rparr>])))"

definition upsertMessage :: "Message \<Rightarrow> bool \<Rightarrow> state \<Rightarrow> state" where
  "upsertMessage nxt replace s = setMessages (upsertMessage_updater nxt replace) s"

section \<open>The Chunk Store and the Transcript Aggregator\<close>

definition clearTurn :: "string \<Rightarrow> state \<Rightarrow> state" where
  "clearTurn tid s = s\<lparr>userChunksByTurn := (userChunksByTurn s)(tid := None)\<rparr>"

text \<open>
  Line 137: a number is taken as it is, a string goes through \<open>Number\<close>, and only a
  missing counter is \<open>undefined\<close>.
\<close>

fun coerceCounter :: "js_builtins \<Rightarrow> strnum option \<Rightarrow> jsnum option" where
  "coerceCounter B (Some (Num n)) = Some n"
| "coerceCounter B (Some (Str s)) = Some (Number_str B s)"
| "coerceCounter B None = None"

text \<open>Line 157: the entries of the turn's map, sorted by \<open>a - b\<close> on the keys, as chunks.\<close>

definition sortedChunks :: "(jsnum \<times> string) list \<Rightarrow> TranscriptChunk list" where
  "sortedChunks turnMap =
     map (\<lambda>(c, txt). \<lparr>counter = c, chunk_text = txt\<rparr>)
       (js_sort (\<lambda>(a, _) (b, _). js_minus a b) turnMap)"

text \<open>\<open>typeof x === 'string' ? x : ''\<close> on the optional \<open>content\<close> of an event.\<close>

fun stringOrEmpty :: "string option \<Rightarrow> string" where
  "stringOrEmpty (Some c) = c"
| "stringOrEmpty None = []"

definition updateUserTranscript :: "js_builtins \<Rightarrow> AgentEvent \<Rightarrow> state \<Rightarrow> state" where
  "updateUserTranscript B event s =
     (let tid = map_option (js_String B) (turn_id event);
          rawCounter = delta_counter event;
          txt = stringOrEmpty (content event);
          cnt = coerceCounter B rawCounter
      in if \<not> truthy tid \<or> cnt = None then
           upsertMessage \<lparr>role = User, msg_text = txt, turnId = tid, chunks = Some []\<rparr> True
             (if truthy tid then clearTurn (the tid) s else s)
         else
           (let turnMap = (case userChunksByTurn s (the tid) of Some m \<Rightarrow> m | None \<Rightarrow> []);
                turnMap' = AList.update (the cnt) txt turnMap;
                s' = s\<lparr>userChunksByTurn := (userChunksByTurn s)(the tid \<mapsto> turnMap')\<rparr>;
                chs = sortedChunks turnMap';
                aggregatedText = concat (map chunk_text chs)
            in upsertMessage
                 \<lparr>role = User, msg_text = aggregatedText, turnId = tid, chunks = Some chs\<rparr>
                 True s'))"

definition appendAssistantMessage :: "js_builtins \<Rightarrow> AgentEvent \<Rightarrow> state \<Rightarrow> state" where
  "appendAssistantMessage B event s =
     (let txt = stringOrEmpty (content event)
      in upsertMessage
           \<lparr>role = Assistant, msg_text = txt,
            turnId = map_option (js_String B) (turn_id event), chunks = None\<rparr>
           False s)"

section \<open>The Event Dispatcher\<close>

definition handleAgentMessage :: "js_builtins \<Rightarrow> AgentEvent \<Rightarrow> state \<Rightarrow> state" where
  "handleAgentMessage B evt s =
     (if \<not> truthy (type evt) then s
      else if type evt = Some ''turn.end'' \<and> turn_id evt \<noteq> None then
        clearTurn (js_String B (the (turn_id evt))) s
      else if type evt = Some ''user.transcript.delta''
              \<or> type evt = Some ''user.transcript.interim_delta'' then
        updateUserTranscript B evt s
      else if type evt = Some ''response.text'' then
        appendAssistantMessage B evt s
      else s)"

text \<open>Events are delivered one at a time, each handled to completion before the next.\<close>

fun deliver :: "js_builtins \<Rightarrow> AgentEvent list \<Rightarrow> state \<Rightarrow> state" where
  "deliver B [] s = s"
| "deliver B (e # es) s = deliver B es (handleAgentMessage B e s)"

section \<open>Session signals\<close>

definition onConnect :: "state \<Rightarrow> state" where
  "onConnect s = appendSystemMessage ''Connected'' (s\<lparr>isSessionActive := True\<rparr>)"

definition onDisconnect :: "state \<Rightarrow> state" where
  "onDisconnect s =
     appendSystemMessage ''Disconnected''
       (s\<lparr>isSessionActive := False, userChunksByTurn := Map.empty\<rparr>)"

definition onError :: "string \<Rightarrow> state \<Rightarrow> state" where
  "onError errorMessage s =
     (if js_includes errorMessage ''insufficient_balance'' \<or> js_includes errorMessage ''402'' then
        s\<lparr>error := Some (''Your organization has insufficient funds. '' @
          ''Please add funds to your Layercode account to continue.'')\<rparr>
      else
        setMessages (\<lambda>prev. prev @
          [\<lparr>role = System, msg_text = ''Error: '' @ errorMessage, turnId = None, chunks = None\<rparr>]) s)"

definition canConnect :: "string \<Rightarrow> state \<Rightarrow> bool" where
  "canConnect agentStatus s = (\<not> isSessionActive s \<and> agentStatus \<noteq> ''connecting'')"

text \<open>
  \<open>handleConnectClick\<close>, with the \<open>status\<close> the agent hook reports and the outcome
  of the awaited \<open>connect()\<close> as arguments.
\<close>

definition handleConnectClick :: "string \<Rightarrow> unit outcome \<Rightarrow> state \<Rightarrow> state" where
  "handleConnectClick agentStatus connectResult s =
     (if \<not> canConnect agentStatus s then s
      else
        (let s' = s\<lparr>userChunksByTurn := Map.empty, messages := [], error := None\<rparr>
         in case connectResult of
              Returns u \<Rightarrow> s'
            | Throws errorMessage \<Rightarrow>
                s'\<lparr>messages := [\<lparr>role = System,
                  msg_text = ''Failed to connect: '' @ errorMessage,
                  turnId = None, chunks = None\<rparr>]\<rparr>))"

text \<open>
  The signals the component reacts to. \<open>handleConnectClick\<close> is taken as one step: the
  reset it performs before \<open>await connect()\<close> and the message it sets when the call
  throws.
\<close>

datatype signal =
    AgentMessage AgentEvent
  | Connect
  | Disconnect
  | ErrorSignal string
  | ConnectClick string "unit outcome"

fun step :: "js_builtins \<Rightarrow> signal \<Rightarrow> state \<Rightarrow> state" where
  "step B (AgentMessage evt) s = handleAgentMessage B evt s"
| "step B Connect s = onConnect s"
| "step B Disconnect s = onDisconnect s"
| "step B (ErrorSignal errorMessage) s = onError errorMessage s"
| "step B (ConnectClick agentStatus connectResult) s =
     handleConnectClick agentStatus connectResult s"

fun run :: "js_builtins \<Rightarrow> signal list \<Rightarrow> state \<Rightarrow> state" where
  "run B [] s = s"
| "run B (x # xs) s = run B xs (step B x s)"

section \<open>The authorization route \<open>app/api/authorize/route.ts\<close>\<close>

text \<open>A parsed JSON value; an object keeps its members in order.\<close>

datatype json =
    JNull
  | JBool bool
  | JNumber jsnum
  | JString string
  | JArray "json list"
  | JObject "(string \<times> json) list"

fun json_truthy :: "json \<Rightarrow> bool" where
  "json_truthy JNull = False"
| "json_truthy (JBool b) = b"
| "json_truthy (JNumber n) = (n \<noteq> NaN \<and> n \<noteq> Fin 0)"
| "json_truthy (JString s) = (s \<noteq> [])"
| "json_truthy (JArray xs) = True"
| "json_truthy (JObject kvs) = True"

text \<open>
  \<open>requestBody.agent_id\<close> on a truthy parsed body: the member of an object (the last
  one of that name, as \<open>JSON.parse\<close> keeps it); \<open>undefined\<close> on any other value.
\<close>

fun agent_id_of :: "json \<Rightarrow> json option" where
  "agent_id_of (JObject kvs) = map_of (rev kvs) ''agent_id''"
| "agent_id_of j = None"

fun property_truthy :: "json option \<Rightarrow> bool" where
  "property_truthy None = False"
| "property_truthy (Some j) = json_truthy j"

text \<open>What \<open>fetch\<close> is called with, and the part of its \<open>Response\<close> the route reads.\<close>

record fetch_request =
  url :: string
  http_method :: string
  headers :: "(string \<times> string) list"
  body :: json

record upstream_response =
  ok :: bool
  statusText :: string
  response_text :: "string outcome"
  response_json :: "json outcome"

text \<open>\<open>NextResponse.json(data, init)\<close>; the status is 200 when \<open>init\<close> is absent.\<close>

record next_response =
  data :: json
  status :: nat
  init_statusText :: string

text \<open>
  The body of the \<open>try\<close> block. A thrown value is an \<open>Error\<close>, kept as its message:
  \<open>fetch\<close>, \<open>text()\<close> and \<open>json()\<close> throw nothing else, and the \<open>catch\<close> block reads
  only \<open>error.message\<close>.
\<close>

definition authorize_session ::
  "(fetch_request \<Rightarrow> upstream_response outcome) \<Rightarrow> string \<Rightarrow> json \<Rightarrow> next_response outcome" where
  "authorize_session fetch apiKey requestBody =
     (case fetch \<lparr>url = ''https://api.layercode.com/v1/agents/web/authorize_session'',
                   http_method = ''POST'',
                   headers = [(''Content-Type'', ''application/json''),
                              (''Authorization'', ''Bearer '' @ apiKey)],
                   body = requestBody\<rparr> of
        Throws m \<Rightarrow> Throws m
      | Returns response \<Rightarrow>
          (if ok response then
             (case response_json response of
                Throws m \<Rightarrow> Throws m
              | Returns j \<Rightarrow> Returns \<lparr>data = j, status = 200, init_statusText = []\<rparr>)
           else
             (case response_text response of
                Throws m \<Rightarrow> Throws m
              | Returns txt \<Rightarrow> Throws (if txt \<noteq> [] then txt else statusText response))))"

text \<open>
  \<open>POST\<close>, with the environment variable, the outcome of \<open>request.json()\<close> and
  \<open>fetch\<close> as arguments. \<open>Throws\<close> as a result is an exception that leaves the handler.
\<close>

definition POST ::
  "string option \<Rightarrow> json outcome \<Rightarrow> (fetch_request \<Rightarrow> upstream_response outcome)
     \<Rightarrow> next_response outcome" where
  "POST apiKey request_json fetch =
     (if \<not> truthy apiKey then Throws ''LAYERCODE_API_KEY is not set.''
      else
        (case request_json of
           Throws m \<Rightarrow> Throws m
         | Returns requestBody \<Rightarrow>
             (if \<not> json_truthy requestBody \<or> \<not> property_truthy (agent_id_of requestBody) then
                Throws ''Missing agent_id in request body.''
              else
                (case authorize_session fetch (the apiKey) requestBody of
                   Returns r \<Rightarrow> Returns r
                 | Throws message \<Rightarrow>
                     (if message \<noteq> [] \<and> js_includes message ''insufficient_balance'' then
                        Returns \<lparr>data = JObject [(''error'', JString ''insufficient_balance'')],
                                 status = 402, init_statusText = ''insufficient_balance''\<rparr>
                      else
                        Returns \<lparr>data = JObject [(''error'', JString message)],
                                 status = 500, init_statusText = []\<rparr>)))))"

section \<open>Built-ins for the examples\<close>

text \<open>
  The examples below run the model on ECMAScript's coercions, restricted to the strings
  and numbers the examples use. \<open>Number_ascii\<close> is \<open>Number\<close> on the empty string
  (\<open>0\<close>), on a string of ASCII decimal digits (the number it writes, below \<open>2^53\<close>) and on
  a string with a character that no numeric literal contains, such as \<open>s\<close> or \<open>v\<close>
  (\<open>NaN\<close>). Signs, fractions, exponents, radix prefixes, white space and \<open>Infinity\<close> are
  left out: no example has one. \<open>String_ascii\<close> is \<open>String\<close> on \<open>NaN\<close>, the infinities
  and the integers below \<open>10^21\<close> in absolute value.
\<close>

definition digit_of :: "char \<Rightarrow> nat option" where
  "digit_of c =
     (let n = (of_char c :: nat) in if 48 \<le> n \<and> n \<le> 57 then Some (n - 48) else None)"

fun digits_value :: "nat \<Rightarrow> string \<Rightarrow> nat option" where
  "digits_value acc [] = Some acc"
| "digits_value acc (c # cs) =
     (case digit_of c of None \<Rightarrow> None | Some d \<Rightarrow> digits_value (10 * acc + d) cs)"

definition Number_ascii :: "string \<Rightarrow> jsnum" where
  "Number_ascii s = (case digits_value 0 s of Some n \<Rightarrow> Fin (real n) | None \<Rightarrow> NaN)"

function digits_of :: "nat \<Rightarrow> string" where
  "digits_of n =
     (if n < 10 then [''0123456789'' ! n]
      else digits_of (n div 10) @ [''0123456789'' ! (n mod 10)])"
  by pat_completeness auto
termination
  by (relation "measure id") auto

fun String_ascii :: "jsnum \<Rightarrow> string" where
  "String_ascii NaN = ''NaN''"
| "String_ascii PInf = ''Infinity''"
| "String_ascii NInf = ''-Infinity''"
| "String_ascii (Fin r) =
     (if 0 \<le> r then digits_of (nat \<lfloor>r\<rfloor>) else ''-'' @ digits_of (nat \<lfloor>- r\<rfloor>))"

definition builtins :: js_builtins where
  "builtins = \<lparr>Number_str = Number_ascii, String_num = String_ascii\<rparr>"

text \<open>A delta event, a \<open>turn.end\<close> event and a \<open>response.text\<close> event, for the examples.\<close>

definition delta :: "strnum option \<Rightarrow> strnum option \<Rightarrow> string \<Rightarrow> AgentEvent" where
  "delta tid c txt =
     \<lparr>type = Some ''user.transcript.delta'', turn_id = tid, delta_counter = c,
      content = Some txt\<rparr>"

definition turn_end :: "strnum \<Rightarrow> AgentEvent" where
  "turn_end tid =
     \<lparr>type = Some ''turn.end'', turn_id = Some tid, delta_counter = None, content = None\<rparr>"

section \<open>Notions used in the statements\<close>

text \<open>A delta event is an event of one of the two transcript types.\<close>

definition is_delta :: "AgentEvent \<Rightarrow> bool" where
  "is_delta evt =
     (type evt = Some ''user.transcript.delta''
      \<or> type evt = Some ''user.transcript.interim_delta'')"

text \<open>
  \<open>delta_for B tid c evt\<close>: \<open>evt\<close> is a delta event that records a chunk, for the turn
  whose id coerces to the non-empty string \<open>tid\<close>, under the counter that coerces to \<open>c\<close>.
\<close>

definition delta_for :: "js_builtins \<Rightarrow> string \<Rightarrow> jsnum \<Rightarrow> AgentEvent \<Rightarrow> bool" where
  "delta_for B tid c evt =
     (is_delta evt \<and> map_option (js_String B) (turn_id evt) = Some tid \<and> tid \<noteq> []
      \<and> coerceCounter B (delta_counter evt) = Some c)"

text \<open>The coerced counter of a delta event that has one, and the chunk the event carries.\<close>

definition counterOf :: "js_builtins \<Rightarrow> AgentEvent \<Rightarrow> jsnum" where
  "counterOf B evt = (case coerceCounter B (delta_counter evt) of Some c \<Rightarrow> c | None \<Rightarrow> NaN)"

definition deltaPair :: "js_builtins \<Rightarrow> AgentEvent \<Rightarrow> jsnum \<times> string" where
  "deltaPair B evt = (counterOf B evt, stringOrEmpty (content evt))"

text \<open>The chunks stored for a turn, none when the store has no entry for it.\<close>

definition turnMapOf :: "state \<Rightarrow> string \<Rightarrow> (jsnum \<times> string) list" where
  "turnMapOf s tid = (case userChunksByTurn s tid of Some m \<Rightarrow> m | None \<Rightarrow> [])"

text \<open>The turn's map after the chunks of a list of delta events are recorded in order.\<close>

definition recordAll ::
  "js_builtins \<Rightarrow> (jsnum \<times> string) list \<Rightarrow> AgentEvent list \<Rightarrow> (jsnum \<times> string) list" where
  "recordAll B m es =
     foldl (\<lambda>m e. AList.update (counterOf B e) (stringOrEmpty (content e)) m) m es"

text \<open>The user message the aggregator builds from a turn's map, and the fallback message.\<close>

definition aggregated :: "string \<Rightarrow> (jsnum \<times> string) list \<Rightarrow> Message" where
  "aggregated tid turnMap =
     \<lparr>role = User, msg_text = concat (map chunk_text (sortedChunks turnMap)),
      turnId = Some tid, chunks = Some (sortedChunks turnMap)\<rparr>"

definition fallbackMessage :: "string option \<Rightarrow> AgentEvent \<Rightarrow> Message" where
  "fallbackMessage tid evt =
     \<lparr>role = User, msg_text = stringOrEmpty (content evt), turnId = tid, chunks = Some []\<rparr>"

definition chunkPairs :: "TranscriptChunk list \<Rightarrow> (jsnum \<times> string) list" where
  "chunkPairs chs = map (\<lambda>ch. (counter ch, chunk_text ch)) chs"

text \<open>
  The key of an upsert: \<open>matches nxt msg\<close> is the test \<open>findIndex\<close> applies. \<open>merged\<close> is
  the message written over the one found. \<open>findMessage\<close> is the first message of a
  ledger with a given turn and role.
\<close>

definition matches :: "Message \<Rightarrow> Message \<Rightarrow> bool" where
  "matches nxt msg = (turnId msg = turnId nxt \<and> role msg = role nxt)"

definition merged :: "Message \<Rightarrow> bool \<Rightarrow> Message \<Rightarrow> Message" where
  "merged nxt replace current =
     current\<lparr>msg_text := (if replace then msg_text nxt else msg_text current @ msg_text nxt),
       chunks := (case chunks nxt of Some c \<Rightarrow> Some c | None \<Rightarrow> chunks current)\<rparr>"

definition findMessage :: "string \<Rightarrow> Role \<Rightarrow> Message list \<Rightarrow> Message option" where
  "findMessage tid r ms = find (\<lambda>msg. turnId msg = Some tid \<and> role msg = r) ms"

text \<open>No two messages of a ledger have the same non-empty turn id and the same role.\<close>

definition ledger_keys_unique :: "Message list \<Rightarrow> bool" where
  "ledger_keys_unique ms =
     (\<forall>i j. i < j \<and> j < length ms \<and> truthy (turnId (ms ! i)) \<and> turnId (ms ! i) = turnId (ms ! j)
        \<longrightarrow> role (ms ! i) \<noteq> role (ms ! j))"

text \<open>
  The text of a message against its chunks. \<open>concatSortedChunks\<close> is the concatenation
  of the chunks sorted by counter. \<open>text_matches_chunks\<close>: a message with at least one
  chunk has as text the concatenation of its chunks as they are stored.
  \<open>chunks_ascending\<close>: the chunks are stored in ascending counter order.
  \<open>user_messages P\<close>: every user message of a ledger satisfies \<open>P\<close>.
\<close>

definition concatSortedChunks :: "Message \<Rightarrow> string" where
  "concatSortedChunks m =
     concat (map chunk_text
       (js_sort (\<lambda>a b. js_minus (counter a) (counter b))
         (case chunks m of Some chs \<Rightarrow> chs | None \<Rightarrow> [])))"

definition text_matches_chunks :: "Message \<Rightarrow> bool" where
  "text_matches_chunks m =
     (case chunks m of
        None \<Rightarrow> True
      | Some chs \<Rightarrow> chs = [] \<or> msg_text m = concat (map chunk_text chs))"

definition chunks_ascending :: "Message \<Rightarrow> bool" where
  "chunks_ascending m =
     (case chunks m of
        None \<Rightarrow> True
      | Some chs \<Rightarrow> sorted_wrt js_less (map counter chs))"

definition user_messages :: "(Message \<Rightarrow> bool) \<Rightarrow> Message list \<Rightarrow> bool" where
  "user_messages P ms = (\<forall>m\<in>set ms. role m = User \<longrightarrow> P m)"

text \<open>Every turn of the store has distinct counters, none of them \<open>NaN\<close>.\<close>

definition store_numeric :: "TurnChunkMap \<Rightarrow> bool" where
  "store_numeric st =
     (\<forall>tid m. st tid = Some m \<longrightarrow> distinct (map fst m) \<and> (\<forall>p\<in>set m. fst p \<noteq> NaN))"

text \<open>A signal whose delta counter, if it is a delta event, does not coerce to \<open>NaN\<close>.\<close>

fun numeric_counter :: "js_builtins \<Rightarrow> signal \<Rightarrow> bool" where
  "numeric_counter B (AgentMessage evt) =
     (is_delta evt \<longrightarrow> coerceCounter B (delta_counter evt) \<noteq> Some NaN)"
| "numeric_counter B x = True"

section \<open>Example inputs\<close>

definition t1 :: "strnum option" where
  "t1 = Some (Str ''t1'')"

definition num :: "real \<Rightarrow> strnum option" where
  "num r = Some (Num (Fin r))"

text \<open>The state after the deltas \<open>0: "Hi "\<close> and \<open>1: "there"\<close> of turn \<open>t1\<close>.\<close>

definition hiThere :: state where
  "hiThere = deliver builtins [delta t1 (num 0) ''Hi '', delta t1 (num 1) ''there''] initial"

text \<open>An upstream that refuses for lack of funds, one that cannot be reached, a request body.\<close>

definition insufficientFunds :: "fetch_request \<Rightarrow> upstream_response outcome" where
  "insufficientFunds req =
     Returns \<lparr>ok = False, statusText = ''Payment Required'',
       response_text = Returns ''error: insufficient_balance for organization'',
       response_json = Throws ''Unexpected token''\<rparr>"

definition unreachable :: "fetch_request \<Rightarrow> upstream_response outcome" where
  "unreachable req = Throws ''fetch failed''"

definition agentRequest :: json where
  "agentRequest = JObject [(''agent_id'', JString ''agent-1'')]"

section \<open>Sorting by counter\<close>

text \<open>
  On keys that are distinct and not \<open>NaN\<close> the comparator \<open>a - b\<close> is consistent, and
  \<open>js_sort\<close> returns the one list that holds the same entries in ascending key order.
\<close>

lemma js_positive_minus:
  "a \<noteq> NaN \<Longrightarrow> b \<noteq> NaN \<Longrightarrow> js_positive (js_minus a b) = js_less b a"
  by (cases a; cases b) simp_all

lemma js_less_trans: "js_less a b \<Longrightarrow> js_less b c \<Longrightarrow> js_less a c"
  by (cases a; cases b; cases c) simp_all

lemma js_less_asym: "js_less a b \<Longrightarrow> \<not> js_less b a"
  by (cases a; cases b) simp_all

lemma js_less_total: "a \<noteq> NaN \<Longrightarrow> b \<noteq> NaN \<Longrightarrow> a \<noteq> b \<Longrightarrow> js_less a b \<or> js_less b a"
  by (cases a; cases b) auto

lemma set_insort_by: "set (insort_by cmp x ys) = insert x (set ys)"
  by (induction ys) auto

lemma set_js_sort: "set (js_sort cmp xs) = set xs"
  unfolding js_sort_def by (induction xs) (simp_all add: set_insort_by)

lemma length_insort_by: "length (insort_by cmp x ys) = Suc (length ys)"
  by (induction ys) auto

lemma length_js_sort: "length (js_sort cmp xs) = length xs"
  unfolding js_sort_def by (induction xs) (simp_all add: length_insort_by)

lemma sorted_insort_by:
  assumes "sorted_wrt (\<lambda>p q. js_less (fst p) (fst q)) ys"
    and "fst x \<noteq> NaN" and "\<forall>y\<in>set ys. fst y \<noteq> NaN \<and> fst y \<noteq> fst x"
  shows "sorted_wrt (\<lambda>p q. js_less (fst p) (fst q))
           (insort_by (\<lambda>(a, _) (b, _). js_minus a b) x ys)"
  using assms
proof (induction ys)
  case Nil
  then show ?case by simp
next
  case (Cons y ys)
  obtain a u where x: "x = (a, u)" by (cases x)
  obtain b v where y: "y = (b, v)" by (cases y)
  from Cons.prems x y have ab: "a \<noteq> NaN" "b \<noteq> NaN" "a \<noteq> b" by auto
  show ?case
  proof (cases "js_less b a")
    case True
    have "sorted_wrt (\<lambda>p q. js_less (fst p) (fst q))
            (insort_by (\<lambda>(a, _) (b, _). js_minus a b) x ys)"
      using Cons by simp
    with True Cons.prems ab show ?thesis
      by (auto simp: x y js_positive_minus set_insort_by)
  next
    case False
    then have ab': "js_less a b" using js_less_total ab by blast
    then have "\<forall>q\<in>set ys. js_less a (fst q)"
      using Cons.prems(1) y by (auto intro: js_less_trans)
    with False ab' Cons.prems ab show ?thesis
      by (auto simp: x y js_positive_minus)
  qed
qed

lemma sorted_js_sort:
  assumes "distinct (map fst xs)" and "\<forall>p\<in>set xs. fst p \<noteq> NaN"
  shows "sorted_wrt (\<lambda>p q. js_less (fst p) (fst q)) (js_sort (\<lambda>(a, _) (b, _). js_minus a b) xs)"
  using assms
proof (induction xs)
  case Nil
  then show ?case by (simp add: js_sort_def)
next
  case (Cons x xs)
  then have "sorted_wrt (\<lambda>p q. js_less (fst p) (fst q)) (js_sort (\<lambda>(a, _) (b, _). js_minus a b) xs)"
    by simp
  moreover have "\<forall>y\<in>set (js_sort (\<lambda>(a, _) (b, _). js_minus a b) xs). fst y \<noteq> NaN \<and> fst y \<noteq> fst x"
    using Cons.prems unfolding set_js_sort by (auto simp: image_iff)
  moreover have "fst x \<noteq> NaN" using Cons.prems by simp
  ultimately have "sorted_wrt (\<lambda>p q. js_less (fst p) (fst q))
      (insort_by (\<lambda>(a, _) (b, _). js_minus a b) x (js_sort (\<lambda>(a, _) (b, _). js_minus a b) xs))"
    by (intro sorted_insort_by) auto
  then show ?case by (simp add: js_sort_def)
qed

lemma chunkPairs_sortedChunks:
  "chunkPairs (sortedChunks m) = js_sort (\<lambda>(a, _) (b, _). js_minus a b) m"
  by (simp add: chunkPairs_def sortedChunks_def comp_def case_prod_beta)

lemma counters_chunkPairs: "map counter chs = map fst (chunkPairs chs)"
  by (simp add: chunkPairs_def comp_def)

lemma sortedChunks_sorted:
  assumes "distinct (map fst m)" and "\<forall>p\<in>set m. fst p \<noteq> NaN"
  shows "sorted_wrt js_less (map counter (sortedChunks m))"
  using sorted_js_sort [OF assms]
  by (simp add: counters_chunkPairs chunkPairs_sortedChunks sorted_wrt_map)

lemma sortedChunks_set: "set (chunkPairs (sortedChunks m)) = set m"
  by (simp add: chunkPairs_sortedChunks set_js_sort)

lemma sortedChunks_distinct:
  assumes "distinct (map fst m)"
  shows "distinct (map fst (chunkPairs (sortedChunks m)))"
proof -
  have "length (chunkPairs (sortedChunks m)) = length m"
    by (simp add: chunkPairs_sortedChunks length_js_sort)
  moreover have "set (map fst (chunkPairs (sortedChunks m))) = set (map fst m)"
    by (simp add: sortedChunks_set)
  moreover have "card (set (map fst m)) = length m"
    using assms distinct_card [of "map fst m"] by simp
  ultimately show ?thesis
    by (intro card_distinct) simp
qed

lemma sortedChunks_map_of:
  assumes "distinct (map fst m)"
  shows "map_of (chunkPairs (sortedChunks m)) = map_of m"
  using assms sortedChunks_distinct [OF assms] sortedChunks_set [of m]
  by (simp add: map_of_inject_set)

lemma sorted_wrt_unique:
  assumes "\<And>x y. R x y \<Longrightarrow> \<not> R y x"
    and "sorted_wrt R xs" and "sorted_wrt R ys" and "set xs = set ys"
  shows "xs = ys"
  using assms(2-)
proof (induction xs arbitrary: ys)
  case Nil
  then show ?case by simp
next
  case (Cons x xs)
  then obtain y ys' where ys: "ys = y # ys'" by (cases ys) auto
  have irr: "\<And>z. \<not> R z z" using assms(1) by blast
  have xy: "x = y"
  proof (rule ccontr)
    assume "x \<noteq> y"
    then have "x \<in> set ys'" "y \<in> set xs" using Cons.prems(3) ys by auto
    then have "R y x" "R x y" using Cons.prems ys by auto
    then show False using assms(1) by blast
  qed
  have "x \<notin> set xs" "y \<notin> set ys'" using Cons.prems ys irr by auto
  then have "set xs = set ys'" using Cons.prems(3) ys xy by auto
  then have "xs = ys'" using Cons.IH Cons.prems ys by simp
  with xy ys show ?case by simp
qed

lemma set_sortedChunks:
  "set (sortedChunks m) = (\<lambda>(c, t). \<lparr>counter = c, chunk_text = t\<rparr>) ` set m"
  by (simp add: sortedChunks_def set_js_sort)

lemma sortedChunks_cong_set:
  assumes "distinct (map fst m)" and "distinct (map fst m')"
    and "\<forall>p\<in>set m. fst p \<noteq> NaN" and "set m = set m'"
  shows "sortedChunks m = sortedChunks m'"
proof (rule sorted_wrt_unique [where R = "\<lambda>a b. js_less (counter a) (counter b)"])
  show "\<And>x y. js_less (counter x) (counter y) \<Longrightarrow> \<not> js_less (counter y) (counter x)"
    by (rule js_less_asym)
  show "sorted_wrt (\<lambda>a b. js_less (counter a) (counter b)) (sortedChunks m)"
    using sortedChunks_sorted [OF assms(1,3)] by (simp add: sorted_wrt_map)
  show "sorted_wrt (\<lambda>a b. js_less (counter a) (counter b)) (sortedChunks m')"
    using sortedChunks_sorted [OF assms(2)] assms(3,4) by (simp add: sorted_wrt_map)
  show "set (sortedChunks m) = set (sortedChunks m')"
    using assms(4) by (simp add: set_sortedChunks)
qed

lemma sortedChunks_single [simp]:
  "sortedChunks [(c, t)] = [\<lparr>counter = c, chunk_text = t\<rparr>]"
  by (simp add: sortedChunks_def js_sort_def)

section \<open>Facts about the ledger\<close>

lemma findIndex_None_iff: "findIndex P xs = None \<longleftrightarrow> (\<forall>x\<in>set xs. \<not> P x)"
  by (induction xs) auto

lemma findIndex_Some_iff:
  "findIndex P xs = Some i \<longleftrightarrow> i < length xs \<and> P (xs ! i) \<and> (\<forall>j<i. \<not> P (xs ! j))"
proof (induction xs arbitrary: i)
  case Nil
  then show ?case by simp
next
  case (Cons x xs)
  show ?case
  proof (cases "P x")
    case True
    then show ?thesis by (cases i) auto
  next
    case False
    show ?thesis
    proof (cases i)
      case 0
      with False show ?thesis by auto
    next
      case (Suc k)
      have "(\<forall>j<Suc k. \<not> P ((x # xs) ! j)) \<longleftrightarrow> (\<forall>j<k. \<not> P (xs ! j))"
        using False by (auto simp: less_Suc_eq_0_disj)
      with False Suc Cons.IH [of k] show ?thesis by auto
    qed
  qed
qed

lemma findIndex_find: "find P xs = map_option ((!) xs) (findIndex P xs)"
  by (induction xs) (auto simp: option.map_comp comp_def)

lemma findIndex_snoc:
  assumes "findIndex P xs = None" and "P y"
  shows "findIndex P (xs @ [y]) = Some (length xs)"
  using assms unfolding findIndex_Some_iff findIndex_None_iff
  by (auto simp: nth_append)

lemma findIndex_update_same:
  assumes "findIndex P xs = Some i" and "P y"
  shows "findIndex P (xs[i := y]) = Some i"
  using assms unfolding findIndex_Some_iff by (auto simp: nth_list_update)

lemma upsert_unfold:
  "upsertMessage_updater nxt replace prev =
     (if truthy (turnId nxt) then
        (case findIndex (matches nxt) prev of
           None \<Rightarrow> prev @ [nxt]
         | Some i \<Rightarrow> prev[i := merged nxt replace (prev ! i)])
      else prev @ [nxt])"
proof -
  have "matches nxt = (\<lambda>msg. turnId msg = turnId nxt \<and> role msg = role nxt)"
    by (simp add: fun_eq_iff matches_def)
  then show ?thesis
    by (simp add: upsertMessage_updater_def merged_def Let_def split: option.split)
qed

lemma matches_merged [simp]: "matches nxt (merged nxt' r cur) = matches nxt cur"
  by (simp add: matches_def merged_def)

lemma merged_replace_full:
  assumes "matches nxt cur" and "chunks nxt \<noteq> None"
  shows "merged nxt True cur = nxt"
  using assms by (cases nxt; cases cur) (auto simp: matches_def merged_def)

lemma merged_twice:
  assumes "chunks n2 \<noteq> None"
  shows "merged n2 True (merged n1 r cur) = merged n2 True cur"
  using assms by (auto simp: merged_def)

lemma upsert_replace_twice:
  assumes "matches n2 n1" and "matches n1 n2" and "chunks n2 \<noteq> None"
    and True: "truthy (turnId n2)"
  shows "upsertMessage_updater n2 True (upsertMessage_updater n1 r prev)
           = upsertMessage_updater n2 True prev"
proof -
  have same: "matches n1 = matches n2"
    using assms by (auto simp: matches_def fun_eq_iff)
  have t1: "truthy (turnId n1)"
    using True assms by (simp add: matches_def)
  show ?thesis
  proof (cases "findIndex (matches n2) prev")
    case None
    then have "findIndex (matches n2) (prev @ [n1]) = Some (length prev)"
      using assms by (intro findIndex_snoc) auto
    with None True t1 assms show ?thesis
      by (simp add: upsert_unfold same merged_replace_full)
  next
    case (Some i)
    then have "findIndex (matches n2) (prev[i := merged n1 r (prev ! i)]) = Some i"
      by (intro findIndex_update_same) (auto simp: findIndex_Some_iff)
    moreover have "i < length prev"
      using Some by (simp add: findIndex_Some_iff)
    ultimately show ?thesis
      using Some True t1 assms by (simp add: upsert_unfold same merged_twice)
  qed
qed

lemma findMessage_upsert:
  assumes "turnId nxt = Some tid" and "tid \<noteq> []" and "chunks nxt \<noteq> None"
  shows "findMessage tid (role nxt) (upsertMessage_updater nxt True prev) = Some nxt"
proof -
  have P: "(\<lambda>msg. turnId msg = Some tid \<and> role msg = role nxt) = matches nxt"
    using assms by (simp add: matches_def fun_eq_iff)
  have self: "matches nxt nxt"
    by (simp add: matches_def)
  show ?thesis
  proof (cases "findIndex (matches nxt) prev")
    case None
    then have "findIndex (matches nxt) (prev @ [nxt]) = Some (length prev)"
      using self by (intro findIndex_snoc) auto
    with None assms show ?thesis
      by (simp add: findMessage_def P findIndex_find upsert_unfold)
  next
    case (Some i)
    then have i: "i < length prev" "matches nxt (prev ! i)"
      by (simp_all add: findIndex_Some_iff)
    then have "findIndex (matches nxt) (prev[i := merged nxt True (prev ! i)]) = Some i"
      using Some by (intro findIndex_update_same) auto
    with Some i assms show ?thesis
      by (simp add: findMessage_def P findIndex_find upsert_unfold merged_replace_full)
  qed
qed

lemma upsert_first_match:
  assumes "\<exists>m\<in>set prev. matches nxt m" and "truthy (turnId nxt)"
  shows "\<exists>i<length prev. matches nxt (prev ! i) \<and> (\<forall>j<i. \<not> matches nxt (prev ! j))
           \<and> upsertMessage_updater nxt replace prev = prev[i := merged nxt replace (prev ! i)]"
proof -
  from assms(1) obtain i where i: "findIndex (matches nxt) prev = Some i"
    using findIndex_None_iff [of "matches nxt" prev] by auto
  then have "i < length prev" "matches nxt (prev ! i)" "\<forall>j<i. \<not> matches nxt (prev ! j)"
    by (simp_all add: findIndex_Some_iff)
  moreover have "upsertMessage_updater nxt replace prev = prev[i := merged nxt replace (prev ! i)]"
    using assms(2) i by (simp add: upsert_unfold)
  ultimately show ?thesis by blast
qed

lemma unique_snoc:
  assumes "ledger_keys_unique ms"
    and "\<forall>m\<in>set ms. truthy (turnId m) \<longrightarrow> \<not> matches x m"
  shows "ledger_keys_unique (ms @ [x])"
  unfolding ledger_keys_unique_def
proof (intro allI impI)
  fix i j
  assume a: "i < j \<and> j < length (ms @ [x]) \<and> truthy (turnId ((ms @ [x]) ! i))
      \<and> turnId ((ms @ [x]) ! i) = turnId ((ms @ [x]) ! j)"
  show "role ((ms @ [x]) ! i) \<noteq> role ((ms @ [x]) ! j)"
  proof (cases "j < length ms")
    case True
    with a have "i < length ms" by simp
    with True a assms(1) show ?thesis
      unfolding ledger_keys_unique_def by (simp add: nth_append) blast
  next
    case False
    with a have j: "j = length ms" and i: "i < length ms" by auto
    then have "ms ! i \<in> set ms" by simp
    with assms(2) a i j show ?thesis
      by (auto simp: nth_append matches_def)
  qed
qed

lemma unique_update:
  assumes "ledger_keys_unique ms" and "turnId y = turnId (ms ! k)" and "role y = role (ms ! k)"
  shows "ledger_keys_unique (ms[k := y])"
proof -
  have same: "turnId (ms[k := y] ! n) = turnId (ms ! n) \<and> role (ms[k := y] ! n) = role (ms ! n)"
    if "n < length ms" for n
    using that assms(2,3) by (cases "k < length ms") (auto simp: nth_list_update)
  show ?thesis
    unfolding ledger_keys_unique_def
  proof (intro allI impI)
    fix i j
    assume a: "i < j \<and> j < length (ms[k := y]) \<and> truthy (turnId (ms[k := y] ! i))
      \<and> turnId (ms[k := y] ! i) = turnId (ms[k := y] ! j)"
    then have "i < length ms" "j < length ms" by simp_all
    with a same [of i] same [of j] assms(1) show "role (ms[k := y] ! i) \<noteq> role (ms[k := y] ! j)"
      unfolding ledger_keys_unique_def by simp blast
  qed
qed

lemma unique_snoc_falsy:
  assumes "ledger_keys_unique ms" and "\<not> truthy (turnId x)"
  shows "ledger_keys_unique (ms @ [x])"
  using assms(1)
proof (rule unique_snoc)
  show "\<forall>m\<in>set ms. truthy (turnId m) \<longrightarrow> \<not> matches x m"
    using assms(2) by (auto simp: matches_def)
qed

lemma unique_upsert:
  assumes "ledger_keys_unique prev"
  shows "ledger_keys_unique (upsertMessage_updater nxt r prev)"
proof (cases "truthy (turnId nxt)")
  case False
  with assms show ?thesis
    by (simp add: upsert_unfold unique_snoc_falsy)
next
  case True
  show ?thesis
  proof (cases "findIndex (matches nxt) prev")
    case None
    then have "\<forall>m\<in>set prev. truthy (turnId m) \<longrightarrow> \<not> matches nxt m"
      by (simp add: findIndex_None_iff)
    with None True assms show ?thesis
      by (simp add: upsert_unfold unique_snoc)
  next
    case (Some k)
    have "ledger_keys_unique (prev[k := merged nxt r (prev ! k)])"
      using assms by (rule unique_update) (simp_all add: merged_def)
    with Some True show ?thesis
      by (simp add: upsert_unfold)
  qed
qed

lemma unique_match_only:
  assumes "ledger_keys_unique prev" and "truthy (turnId nxt)"
    and "i < length prev" and "matches nxt (prev ! i)"
    and "j < length prev" and "matches nxt (prev ! j)"
  shows "j = i"
proof (rule ccontr)
  assume "j \<noteq> i"
  then consider "i < j" | "j < i" by linarith
  then show False
    using assms unfolding ledger_keys_unique_def matches_def
    by cases metis+
qed

lemma user_messages_snoc:
  "user_messages P ms \<Longrightarrow> (role x = User \<longrightarrow> P x) \<Longrightarrow> user_messages P (ms @ [x])"
  by (auto simp: user_messages_def)

lemma user_messages_update:
  assumes "user_messages P ms" and "role y = User \<longrightarrow> P y"
  shows "user_messages P (ms[k := y])"
  using assms set_update_subset_insert [of ms k y]
  by (auto simp: user_messages_def)

lemma user_messages_upsert_user:
  assumes "user_messages P prev" and "P nxt" and "chunks nxt \<noteq> None"
  shows "user_messages P (upsertMessage_updater nxt True prev)"
proof (cases "findIndex (matches nxt) prev")
  case None
  with assms show ?thesis
    by (simp add: upsert_unfold user_messages_snoc)
next
  case (Some k)
  then have "matches nxt (prev ! k)" by (simp add: findIndex_Some_iff)
  then have "merged nxt True (prev ! k) = nxt"
    using assms(3) by (rule merged_replace_full)
  with Some assms show ?thesis
    by (simp add: upsert_unfold user_messages_snoc user_messages_update)
qed

lemma user_messages_upsert_assistant:
  assumes "user_messages P prev" and "role nxt = Assistant"
  shows "user_messages P (upsertMessage_updater nxt r prev)"
proof (cases "findIndex (matches nxt) prev")
  case None
  with assms show ?thesis
    by (simp add: upsert_unfold user_messages_snoc)
next
  case (Some k)
  then have "matches nxt (prev ! k)" by (simp add: findIndex_Some_iff)
  then have "role (merged nxt r (prev ! k)) = Assistant"
    using assms(2) by (simp add: matches_def merged_def)
  with Some assms show ?thesis
    by (simp add: upsert_unfold user_messages_snoc user_messages_update)
qed

section \<open>Facts about the handlers\<close>

lemma is_delta_truthy: "is_delta evt \<Longrightarrow> truthy (type evt)"
  by (auto simp: is_delta_def)

lemma is_delta_not_end: "is_delta evt \<Longrightarrow> type evt \<noteq> Some ''turn.end''"
  by (auto simp: is_delta_def)

lemma handle_delta:
  "is_delta evt \<Longrightarrow> handleAgentMessage B evt s = updateUserTranscript B evt s"
  by (auto simp: handleAgentMessage_def is_delta_def)

lemma update_normal_path:
  assumes "turn_id evt = Some i" and "js_String B i = tid" and "tid \<noteq> []"
    and "coerceCounter B (delta_counter evt) = Some c"
  shows "updateUserTranscript B evt s =
           upsertMessage
             (aggregated tid (AList.update c (stringOrEmpty (content evt)) (turnMapOf s tid)))
             True
             (s\<lparr>userChunksByTurn := (userChunksByTurn s)
                (tid \<mapsto> AList.update c (stringOrEmpty (content evt)) (turnMapOf s tid))\<rparr>)"
  using assms by (simp add: updateUserTranscript_def Let_def aggregated_def turnMapOf_def)

lemma update_fallback_path:
  assumes "map_option (js_String B) (turn_id evt) = tid"
    and "truthy tid = False \<or> delta_counter evt = None"
  shows "updateUserTranscript B evt s =
           upsertMessage
             \<lparr>role = User, msg_text = stringOrEmpty (content evt), turnId = tid, chunks = Some []\<rparr>
             True (if truthy tid then clearTurn (the tid) s else s)"
proof -
  have "coerceCounter B (delta_counter evt) = None \<longleftrightarrow> delta_counter evt = None"
    by (cases "(B, delta_counter evt)" rule: coerceCounter.cases) auto
  with assms show ?thesis
    by (auto simp: updateUserTranscript_def Let_def)
qed

lemma handle_delta_for:
  assumes "delta_for B tid c evt"
  shows "handleAgentMessage B evt s =
           upsertMessage
             (aggregated tid (AList.update c (stringOrEmpty (content evt)) (turnMapOf s tid)))
             True
             (s\<lparr>userChunksByTurn := (userChunksByTurn s)
                (tid \<mapsto> AList.update c (stringOrEmpty (content evt)) (turnMapOf s tid))\<rparr>)"
proof -
  from assms obtain i where "turn_id evt = Some i" "js_String B i = tid"
    by (auto simp: delta_for_def)
  with assms show ?thesis
    by (simp add: delta_for_def handle_delta update_normal_path)
qed

lemma aggregated_fields [simp]:
  "turnId (aggregated tid m) = Some tid" "role (aggregated tid m) = User"
  "chunks (aggregated tid m) = Some (sortedChunks m)"
  "msg_text (aggregated tid m) = concat (map chunk_text (sortedChunks m))"
  by (simp_all add: aggregated_def)

lemma upsertMessage_fields [simp]:
  "userChunksByTurn (upsertMessage nxt r s) = userChunksByTurn s"
  "messages (upsertMessage nxt r s) = upsertMessage_updater nxt r (messages s)"
  "isSessionActive (upsertMessage nxt r s) = isSessionActive s"
  "error (upsertMessage nxt r s) = error s"
  by (simp_all add: upsertMessage_def setMessages_def)

lemma turnMapOf_upd [simp]:
  "turnMapOf (s\<lparr>userChunksByTurn := (userChunksByTurn s)(tid \<mapsto> m)\<rparr>) tid = m"
  "turnMapOf (upsertMessage nxt r s) tid = turnMapOf s tid"
  by (simp_all add: turnMapOf_def)

lemma recordAll_simps [simp]:
  "recordAll B m [] = m"
  "recordAll B m (e # es) =
     recordAll B (AList.update (counterOf B e) (stringOrEmpty (content e)) m) es"
  by (simp_all add: recordAll_def)

lemma map_of_recordAll:
  "map_of (recordAll B m es) = map_of (rev (map (deltaPair B) es) @ m)"
  by (induction es arbitrary: m) (simp_all add: update_conv' deltaPair_def)

lemma distinct_recordAll:
  "distinct (map fst m) \<Longrightarrow> distinct (map fst (recordAll B m es))"
  by (induction es arbitrary: m) (simp_all add: distinct_update)

lemma keys_recordAll:
  "fst ` set (recordAll B m es) = fst ` set m \<union> counterOf B ` set es"
proof -
  have "dom (map_of (recordAll B m es)) = fst ` set m \<union> counterOf B ` set es"
    unfolding map_of_recordAll
    by (auto simp: dom_map_of_conv_image_fst deltaPair_def image_iff)
  then show ?thesis
    by (simp add: dom_map_of_conv_image_fst)
qed

lemma deliver_deltas:
  assumes "es \<noteq> []" and "\<forall>e\<in>set es. delta_for B tid (counterOf B e) e"
  shows "turnMapOf (deliver B es s) tid = recordAll B (turnMapOf s tid) es
         \<and> findMessage tid User (messages (deliver B es s))
             = Some (aggregated tid (recordAll B (turnMapOf s tid) es))"
  using assms
proof (induction es arbitrary: s)
  case Nil
  then show ?case by simp
next
  case (Cons e es)
  then have e: "delta_for B tid (counterOf B e) e" by simp
  then have tid: "tid \<noteq> []" by (simp add: delta_for_def)
  let ?m = "AList.update (counterOf B e) (stringOrEmpty (content e)) (turnMapOf s tid)"
  have tm: "turnMapOf (handleAgentMessage B e s) tid = ?m"
    by (simp add: handle_delta_for [OF e])
  show ?case
  proof (cases "es = []")
    case True
    have "findMessage tid User (messages (handleAgentMessage B e s)) = Some (aggregated tid ?m)"
      using tid findMessage_upsert [of "aggregated tid ?m" tid]
      by (simp add: handle_delta_for [OF e])
    with True tm show ?thesis by simp
  next
    case False
    with Cons.IH [of "handleAgentMessage B e s"] Cons.prems tm show ?thesis by simp
  qed
qed

lemma unique_step:
  assumes "ledger_keys_unique (messages s)"
  shows "ledger_keys_unique (messages (step B x s))"
proof (cases x)
  case (AgentMessage evt)
  with assms show ?thesis
    by (auto simp: handleAgentMessage_def updateUserTranscript_def appendAssistantMessage_def
        Let_def clearTurn_def unique_upsert)
next
  case Connect
  with assms show ?thesis
    by (simp add: onConnect_def appendSystemMessage_def setMessages_def unique_snoc_falsy)
next
  case Disconnect
  with assms show ?thesis
    by (simp add: onDisconnect_def appendSystemMessage_def setMessages_def unique_snoc_falsy)
next
  case (ErrorSignal m)
  with assms show ?thesis
    by (simp add: onError_def setMessages_def unique_snoc_falsy)
next
  case (ConnectClick a r)
  with assms show ?thesis
    by (auto simp: handleConnectClick_def Let_def ledger_keys_unique_def split: outcome.splits)
qed

lemma unique_run:
  "ledger_keys_unique (messages s) \<Longrightarrow> ledger_keys_unique (messages (run B xs s))"
  by (induction xs arbitrary: s) (simp_all add: unique_step)

lemma numeric_update:
  assumes "distinct (map fst m)" and "\<forall>p\<in>set m. fst p \<noteq> NaN" and "c \<noteq> NaN"
  shows "distinct (map fst (AList.update c t m)) \<and> (\<forall>p\<in>set (AList.update c t m). fst p \<noteq> NaN)"
proof -
  have "fst ` set (AList.update c t m) = {c} \<union> fst ` set m"
    by (rule dom_update)
  with assms(2,3) have "\<forall>p\<in>set (AList.update c t m). fst p \<noteq> NaN"
    by (metis (no_types, lifting) Un_iff imageE imageI singletonD)
  with assms(1) show ?thesis
    by (simp add: distinct_update)
qed

lemma turnMapOf_numeric:
  assumes "store_numeric (userChunksByTurn s)"
  shows "distinct (map fst (turnMapOf s tid)) \<and> (\<forall>p\<in>set (turnMapOf s tid). fst p \<noteq> NaN)"
proof (cases "userChunksByTurn s tid")
  case None
  then show ?thesis by (simp add: turnMapOf_def)
next
  case (Some m)
  with assms have "distinct (map fst m) \<and> (\<forall>p\<in>set m. fst p \<noteq> NaN)"
    unfolding store_numeric_def by blast
  with Some show ?thesis by (simp add: turnMapOf_def)
qed

lemma store_numeric_upd:
  assumes "store_numeric st" and "distinct (map fst m)" and "\<forall>p\<in>set m. fst p \<noteq> NaN"
  shows "store_numeric (st(tid \<mapsto> m))"
  using assms by (auto simp: store_numeric_def)

lemma store_numeric_del: "store_numeric st \<Longrightarrow> store_numeric (st(tid := None))"
  by (auto simp: store_numeric_def)

lemma update_transcript_cases:
  obtains (normal) i tid c where "turn_id evt = Some i" "js_String B i = tid" "tid \<noteq> []"
      "coerceCounter B (delta_counter evt) = Some c"
  | (fallback) "truthy (map_option (js_String B) (turn_id evt)) = False
      \<or> delta_counter evt = None"
proof (cases "truthy (map_option (js_String B) (turn_id evt))
              \<and> coerceCounter B (delta_counter evt) \<noteq> None")
  case True
  then obtain i tid c where "turn_id evt = Some i" "js_String B i = tid" "tid \<noteq> []"
      "coerceCounter B (delta_counter evt) = Some c"
    by (cases "turn_id evt") auto
  then show ?thesis by (rule normal)
next
  case False
  then have "truthy (map_option (js_String B) (turn_id evt)) = False \<or> delta_counter evt = None"
    by (cases "(B, delta_counter evt)" rule: coerceCounter.cases) auto
  then show ?thesis by (rule fallback)
qed

lemma text_update_transcript:
  assumes "user_messages text_matches_chunks (messages s)"
  shows "user_messages text_matches_chunks (messages (updateUserTranscript B evt s))"
proof (cases B evt rule: update_transcript_cases)
  case (normal i tid c)
  let ?m = "AList.update c (stringOrEmpty (content evt)) (turnMapOf s tid)"
  have "user_messages text_matches_chunks
      (upsertMessage_updater (aggregated tid ?m) True (messages s))"
    using assms by (intro user_messages_upsert_user) (simp_all add: text_matches_chunks_def)
  then show ?thesis
    by (simp add: update_normal_path [OF normal])
next
  case fallback
  let ?tid = "map_option (js_String B) (turn_id evt)"
  have "user_messages text_matches_chunks
      (upsertMessage_updater (fallbackMessage ?tid evt) True (messages s))"
    using assms
    by (intro user_messages_upsert_user) (simp_all add: text_matches_chunks_def fallbackMessage_def)
  then show ?thesis
    by (simp add: update_fallback_path [OF refl fallback] clearTurn_def fallbackMessage_def)
qed

lemma ascending_update_transcript:
  assumes "user_messages chunks_ascending (messages s)" and "store_numeric (userChunksByTurn s)"
    and "coerceCounter B (delta_counter evt) \<noteq> Some NaN"
  shows "user_messages chunks_ascending (messages (updateUserTranscript B evt s))
         \<and> store_numeric (userChunksByTurn (updateUserTranscript B evt s))"
proof (cases B evt rule: update_transcript_cases)
  case (normal i tid c)
  let ?m = "AList.update c (stringOrEmpty (content evt)) (turnMapOf s tid)"
  have c: "c \<noteq> NaN" using assms(3) normal by simp
  have m: "distinct (map fst ?m) \<and> (\<forall>p\<in>set ?m. fst p \<noteq> NaN)"
    using turnMapOf_numeric [OF assms(2), of tid] c by (intro numeric_update) auto
  then have "sorted_wrt js_less (map counter (sortedChunks ?m))"
    by (intro sortedChunks_sorted) auto
  then have "user_messages chunks_ascending
      (upsertMessage_updater (aggregated tid ?m) True (messages s))"
    using assms(1) by (intro user_messages_upsert_user) (simp_all add: chunks_ascending_def)
  moreover have "store_numeric ((userChunksByTurn s)(tid \<mapsto> ?m))"
    using assms(2) m by (intro store_numeric_upd) auto
  ultimately show ?thesis
    by (simp add: update_normal_path [OF normal])
next
  case fallback
  let ?tid = "map_option (js_String B) (turn_id evt)"
  have "user_messages chunks_ascending
      (upsertMessage_updater (fallbackMessage ?tid evt) True (messages s))"
    using assms(1)
    by (intro user_messages_upsert_user) (simp_all add: chunks_ascending_def fallbackMessage_def)
  with assms(2) show ?thesis
    by (simp add: update_fallback_path [OF refl fallback] clearTurn_def store_numeric_del
        fallbackMessage_def)
qed

lemma handle_other:
  assumes "\<not> is_delta evt"
  shows "handleAgentMessage B evt s = s
         \<or> handleAgentMessage B evt s = appendAssistantMessage B evt s
         \<or> (\<exists>tid. handleAgentMessage B evt s = clearTurn tid s)"
  using assms by (auto simp: handleAgentMessage_def is_delta_def)

lemma text_step:
  assumes "user_messages text_matches_chunks (messages s)"
  shows "user_messages text_matches_chunks (messages (step B x s))"
proof (cases x)
  case (AgentMessage evt)
  show ?thesis
  proof (cases "is_delta evt")
    case True
    with assms AgentMessage show ?thesis
      by (simp add: handle_delta text_update_transcript)
  next
    case False
    have "user_messages text_matches_chunks (messages (appendAssistantMessage B evt s))"
      using assms by (simp add: appendAssistantMessage_def user_messages_upsert_assistant)
    with handle_other [OF False, of B s] assms AgentMessage show ?thesis
      by (auto simp: clearTurn_def)
  qed
next
  case Connect
  with assms show ?thesis
    by (simp add: onConnect_def appendSystemMessage_def setMessages_def user_messages_snoc)
next
  case Disconnect
  with assms show ?thesis
    by (simp add: onDisconnect_def appendSystemMessage_def setMessages_def user_messages_snoc)
next
  case (ErrorSignal m)
  with assms show ?thesis
    by (simp add: onError_def setMessages_def user_messages_snoc)
next
  case (ConnectClick a r)
  with assms show ?thesis
    by (auto simp: handleConnectClick_def Let_def user_messages_def split: outcome.splits)
qed

lemma ascending_step:
  assumes "user_messages chunks_ascending (messages s)" and "store_numeric (userChunksByTurn s)"
    and "numeric_counter B x"
  shows "user_messages chunks_ascending (messages (step B x s))
         \<and> store_numeric (userChunksByTurn (step B x s))"
proof (cases x)
  case (AgentMessage evt)
  show ?thesis
  proof (cases "is_delta evt")
    case True
    with assms AgentMessage show ?thesis
      by (simp add: handle_delta ascending_update_transcript)
  next
    case False
    have "user_messages chunks_ascending (messages (appendAssistantMessage B evt s))
          \<and> store_numeric (userChunksByTurn (appendAssistantMessage B evt s))"
      using assms by (simp add: appendAssistantMessage_def user_messages_upsert_assistant)
    with handle_other [OF False, of B s] assms AgentMessage show ?thesis
      by (auto simp: clearTurn_def store_numeric_del)
  qed
next
  case Connect
  with assms show ?thesis
    by (simp add: onConnect_def appendSystemMessage_def setMessages_def user_messages_snoc)
next
  case Disconnect
  with assms show ?thesis
    by (simp add: onDisconnect_def appendSystemMessage_def setMessages_def user_messages_snoc
        store_numeric_def)
next
  case (ErrorSignal m)
  with assms show ?thesis
    by (simp add: onError_def setMessages_def user_messages_snoc)
next
  case (ConnectClick a r)
  with assms show ?thesis
    by (auto simp: handleConnectClick_def Let_def user_messages_def store_numeric_def
        split: outcome.splits)
qed

lemma text_run:
  "user_messages text_matches_chunks (messages s)
     \<Longrightarrow> user_messages text_matches_chunks (messages (run B xs s))"
  by (induction xs arbitrary: s) (simp_all add: text_step)

lemma ascending_run:
  assumes "user_messages chunks_ascending (messages s)" and "store_numeric (userChunksByTurn s)"
    and "\<forall>x\<in>set xs. numeric_counter B x"
  shows "user_messages chunks_ascending (messages (run B xs s))
         \<and> store_numeric (userChunksByTurn (run B xs s))"
  using assms
proof (induction xs arbitrary: s)
  case Nil
  then show ?case by simp
next
  case (Cons x xs)
  then have "user_messages chunks_ascending (messages (step B x s))
      \<and> store_numeric (userChunksByTurn (step B x s))"
    by (intro ascending_step) simp_all
  with Cons show ?case by simp
qed

lemma starts_with_iff: "starts_with s p \<longleftrightarrow> (\<exists>v. s = p @ v)"
  by (induction s p rule: starts_with.induct) auto

lemma js_includes_iff: "js_includes s p \<longleftrightarrow> (\<exists>u v. s = u @ p @ v)"
proof (induction s)
  case Nil
  then show ?case by simp
next
  case (Cons c cs)
  have "(\<exists>u v. c # cs = u @ p @ v) \<longleftrightarrow> (\<exists>v. c # cs = p @ v) \<or> (\<exists>u v. cs = u @ p @ v)"
  proof
    assume "\<exists>u v. c # cs = u @ p @ v"
    then obtain u v where uv: "c # cs = u @ p @ v" by blast
    show "(\<exists>v. c # cs = p @ v) \<or> (\<exists>u v. cs = u @ p @ v)"
    proof (cases u)
      case Nil
      with uv show ?thesis by auto
    next
      case (Cons a u')
      with uv have "cs = u' @ p @ v" by simp
      then show ?thesis by blast
    qed
  next
    assume "(\<exists>v. c # cs = p @ v) \<or> (\<exists>u v. cs = u @ p @ v)"
    then show "\<exists>u v. c # cs = u @ p @ v"
    proof
      assume "\<exists>v. c # cs = p @ v"
      then obtain v where "c # cs = [] @ p @ v" by auto
      then show ?thesis by blast
    next
      assume "\<exists>u v. cs = u @ p @ v"
      then obtain u v where "c # cs = (c # u) @ p @ v" by auto
      then show ?thesis by blast
    qed
  qed
  with Cons show ?case by (simp add: starts_with_iff)
qed

section \<open>The example state\<close>

lemmas example_defs =
  delta_def turn_end_def t1_def num_def builtins_def initial_def delta_for_def is_delta_def
  counterOf_def

lemma hiThere_state:
  "hiThere = \<lparr>messages = [\<lparr>role = User, msg_text = ''Hi there'', turnId = Some ''t1'',
       chunks = Some [\<lparr>counter = Fin 0, chunk_text = ''Hi ''\<rparr>,
         \<lparr>counter = Fin 1, chunk_text = ''there''\<rparr>]\<rparr>],
     isSessionActive = False, error = None,
     userChunksByTurn = [''t1'' \<mapsto> [(Fin 0, ''Hi ''), (Fin 1, ''there'')]]\<rparr>"
proof -
  have d0: "delta_for builtins ''t1'' (Fin 0) (delta t1 (num 0) ''Hi '')"
    and d1: "delta_for builtins ''t1'' (Fin 1) (delta t1 (num 1) ''there'')"
    by (simp_all add: example_defs)
  show ?thesis
    unfolding hiThere_def deliver.simps handle_delta_for [OF d0] handle_delta_for [OF d1]
    by (simp add: upsertMessage_def setMessages_def upsert_unfold aggregated_def turnMapOf_def
        initial_def sortedChunks_def js_sort_def delta_def matches_def merged_def)
qed

lemma deliver_example:
  "findMessage ''t1'' User (messages (deliver builtins
      [delta t1 (num 2) ''c'', delta t1 (num 0) ''a'', delta t1 (num 1) ''b''] initial))
    = Some \<lparr>role = User, msg_text = ''abc'', turnId = Some ''t1'',
        chunks = Some [\<lparr>counter = Fin 0, chunk_text = ''a''\<rparr>,
          \<lparr>counter = Fin 1, chunk_text = ''b''\<rparr>, \<lparr>counter = Fin 2, chunk_text = ''c''\<rparr>]\<rparr>"
proof -
  have "\<forall>e\<in>set [delta t1 (num 2) ''c'', delta t1 (num 0) ''a'', delta t1 (num 1) ''b''].
          delta_for builtins ''t1'' (counterOf builtins e) e"
    by (simp add: example_defs)
  from deliver_deltas [OF _ this, of initial] show ?thesis
    by (simp add: aggregated_def turnMapOf_def initial_def sortedChunks_def js_sort_def
        counterOf_def delta_def num_def)
qed

section \<open>The claims\<close>

text \<open>
  \<^bold>\<open>C1.\<close> Take any non-empty sequence \<open>es\<close> of delta events for one turn \<open>tid\<close> (a
  non-empty turn id, which is what the code takes for a turn) whose counters coerce to
  numbers other than \<open>NaN\<close>, delivered to a state whose Chunk Store has no entry for the
  turn. The user message of the turn then holds chunks \<open>chs\<close> in ascending counter
  order, one per counter with the text of the last delta at that counter, and its text
  is the concatenation of their texts. When the counters are distinct, every permutation
  of \<open>es\<close> gives the same message: the result does not depend on arrival order.
\<close>

theorem reassembly_in_counter_order:
  assumes "es \<noteq> []"
    and "\<forall>e\<in>set es. delta_for B tid (counterOf B e) e \<and> counterOf B e \<noteq> NaN"
    and "userChunksByTurn s tid = None"
  shows "(\<exists>chs. findMessage tid User (messages (deliver B es s))
                 = Some \<lparr>role = User, msg_text = concat (map chunk_text chs),
                     turnId = Some tid, chunks = Some chs\<rparr>
               \<and> sorted_wrt js_less (map counter chs)
               \<and> map_of (chunkPairs chs) = map_of (rev (map (deltaPair B) es)))
         \<and> (distinct (map (counterOf B) es) \<longrightarrow>
              (\<forall>es'. mset es' = mset es \<longrightarrow>
                 findMessage tid User (messages (deliver B es' s))
                   = findMessage tid User (messages (deliver B es s))))"
proof -
  have empty: "turnMapOf s tid = []"
    using assms(3) by (simp add: turnMapOf_def)
  have found: "findMessage tid User (messages (deliver B xs s))
                 = Some (aggregated tid (recordAll B [] xs))"
    if "xs \<noteq> []" and "set xs = set es" for xs
    using deliver_deltas [of xs B tid s] that assms(2) by (simp add: empty)
  have dist: "distinct (map fst (recordAll B [] xs))" for xs
    by (simp add: distinct_recordAll)
  have nonan: "\<forall>p\<in>set (recordAll B [] xs). fst p \<noteq> NaN" if "set xs = set es" for xs
  proof -
    have "fst ` set (recordAll B [] xs) = counterOf B ` set es"
      using that by (simp add: keys_recordAll)
    with assms(2) show ?thesis by (metis (no_types, lifting) imageE imageI)
  qed
  let ?chs = "sortedChunks (recordAll B [] es)"
  have "findMessage tid User (messages (deliver B es s))
          = Some \<lparr>role = User, msg_text = concat (map chunk_text ?chs),
              turnId = Some tid, chunks = Some ?chs\<rparr>"
    using found [of es] assms(1) by (simp add: aggregated_def)
  moreover have "sorted_wrt js_less (map counter ?chs)"
    using dist nonan by (intro sortedChunks_sorted) auto
  moreover have "map_of (chunkPairs ?chs) = map_of (rev (map (deltaPair B) es))"
    by (simp add: sortedChunks_map_of dist map_of_recordAll)
  moreover have "findMessage tid User (messages (deliver B es' s))
                   = findMessage tid User (messages (deliver B es s))"
    if d: "distinct (map (counterOf B) es)" and p: "mset es' = mset es" for es'
  proof -
    have sets: "set es' = set es" using p by (rule mset_eq_setD)
    have ne: "es' \<noteq> []" using p assms(1) by auto
    have "mset (map (deltaPair B) es') = mset (map (deltaPair B) es)"
      using p by simp
    then have s1: "set (rev (map (deltaPair B) es')) = set (rev (map (deltaPair B) es))"
      by (metis mset_eq_setD set_rev)
    have k: "fst \<circ> deltaPair B = counterOf B"
      by (simp add: deltaPair_def fun_eq_iff)
    have "mset (map (counterOf B) es') = mset (map (counterOf B) es)"
      using p by simp
    then have d': "distinct (map (counterOf B) es')"
      using d by (metis mset_eq_imp_distinct_iff)
    have "map_of (rev (map (deltaPair B) es')) = map_of (rev (map (deltaPair B) es))"
      using d d' s1 by (subst map_of_inject_set) (simp_all add: rev_map [symmetric] k)
    then have "map_of (recordAll B [] es') = map_of (recordAll B [] es)"
      by (simp add: map_of_recordAll)
    then have "set (recordAll B [] es') = set (recordAll B [] es)"
      using dist by (simp add: map_of_inject_set)
    then have "sortedChunks (recordAll B [] es') = sortedChunks (recordAll B [] es)"
      using dist nonan [OF sets] by (intro sortedChunks_cong_set) auto
    then show ?thesis
      using found [of es'] found [of es] ne sets assms(1) by (simp add: aggregated_def)
  qed
  ultimately show ?thesis by blast
qed

text \<open>
  The example of C1: counters \<open>2, 0, 1\<close> with texts \<open>c, a, b\<close> give \<open>abc\<close>, and so does the
  arrival order \<open>0, 1, 2\<close>.
\<close>

theorem reassembly_in_counter_order_witness:
  "delta_for builtins ''t1'' (Fin 2) (delta t1 (num 2) ''c'')
   \<and> delta_for builtins ''t1'' (Fin 0) (delta t1 (num 0) ''a'')
   \<and> delta_for builtins ''t1'' (Fin 1) (delta t1 (num 1) ''b'')
   \<and> userChunksByTurn initial ''t1'' = None
   \<and> findMessage ''t1'' User (messages (deliver builtins
        [delta t1 (num 2) ''c'', delta t1 (num 0) ''a'', delta t1 (num 1) ''b''] initial))
      = Some \<lparr>role = User, msg_text = ''abc'', turnId = Some ''t1'',
          chunks = Some [\<lparr>counter = Fin 0, chunk_text = ''a''\<rparr>,
            \<lparr>counter = Fin 1, chunk_text = ''b''\<rparr>, \<lparr>counter = Fin 2, chunk_text = ''c''\<rparr>]\<rparr>
   \<and> findMessage ''t1'' User (messages (deliver builtins
        [delta t1 (num 0) ''a'', delta t1 (num 1) ''b'', delta t1 (num 2) ''c''] initial))
      = findMessage ''t1'' User (messages (deliver builtins
        [delta t1 (num 2) ''c'', delta t1 (num 0) ''a'', delta t1 (num 1) ''b''] initial))"
proof -
  let ?es = "[delta t1 (num 2) ''c'', delta t1 (num 0) ''a'', delta t1 (num 1) ''b'']"
  let ?es' = "[delta t1 (num 0) ''a'', delta t1 (num 1) ''b'', delta t1 (num 2) ''c'']"
  have hyp: "\<forall>e\<in>set ?es. delta_for builtins ''t1'' (counterOf builtins e) e
               \<and> counterOf builtins e \<noteq> NaN"
    by (simp add: example_defs)
  have st: "userChunksByTurn initial ''t1'' = None"
    by (simp add: initial_def)
  have d: "distinct (map (counterOf builtins) ?es)"
    by (simp add: example_defs)
  have p: "mset ?es' = mset ?es"
    by (simp add: add.commute)
  have "findMessage ''t1'' User (messages (deliver builtins ?es' initial))
          = findMessage ''t1'' User (messages (deliver builtins ?es initial))"
    using reassembly_in_counter_order [OF _ hyp st] d p by blast
  with hyp st deliver_example show ?thesis
    by (simp add: example_defs)
qed

text \<open>
  C2 as stated fails on the fallback path: a delta with no counter leaves a user message
  with a turn id whose text is \<open>hello\<close> and whose chunks are empty, so the concatenation
  of its sorted chunks is the empty string.
\<close>

theorem fallback_breaks_text_invariant:
  "messages (deliver builtins [delta t1 None ''hello''] initial)
     = [\<lparr>role = User, msg_text = ''hello'', turnId = Some ''t1'', chunks = Some []\<rparr>]
   \<and> concatSortedChunks
       \<lparr>role = User, msg_text = ''hello'', turnId = Some ''t1'', chunks = Some []\<rparr> = []
   \<and> msg_text \<lparr>role = User, msg_text = ''hello'', turnId = Some ''t1'', chunks = Some []\<rparr>
       \<noteq> concatSortedChunks
           \<lparr>role = User, msg_text = ''hello'', turnId = Some ''t1'', chunks = Some []\<rparr>"
proof -
  have "is_delta (delta t1 None ''hello'')"
    by (simp add: example_defs)
  then show ?thesis
    using update_fallback_path [of builtins "delta t1 None ''hello''" "Some ''t1''" initial]
    by (simp add: handle_delta concatSortedChunks_def js_sort_def delta_def t1_def
        upsertMessage_def setMessages_def upsert_unfold clearTurn_def initial_def)
qed

text \<open>
  \<^bold>\<open>C2, amended.\<close> Every handler keeps this property of the ledger, which the initial
  state has: the text of a user message that has at least one chunk is the concatenation
  of its chunks' texts. Along signals in which no delta counter coerces to \<open>NaN\<close>, every
  handler also keeps the chunks of every user message in ascending counter order (and
  the counters of every turn of the Chunk Store distinct and not \<open>NaN\<close>, which makes
  this inductive). A message written by the fallback path has no chunks and carries the
  event's content as text.
\<close>

theorem user_text_is_concatenation_of_chunks:
  "(user_messages text_matches_chunks (messages s) \<longrightarrow>
      user_messages text_matches_chunks (messages (run B xs s)))
   \<and> (user_messages chunks_ascending (messages s) \<and> store_numeric (userChunksByTurn s)
        \<and> (\<forall>x\<in>set xs. numeric_counter B x) \<longrightarrow>
      user_messages chunks_ascending (messages (run B xs s))
      \<and> store_numeric (userChunksByTurn (run B xs s)))"
  using text_run [of s B xs] ascending_run [of s xs B] by blast

text \<open>
  C2 on the initial state, along two aggregated deltas, a fallback delta and a disconnect.
\<close>

theorem user_text_is_concatenation_of_chunks_witness:
  "user_messages text_matches_chunks (messages initial)
   \<and> user_messages chunks_ascending (messages initial)
   \<and> store_numeric (userChunksByTurn initial)
   \<and> numeric_counter builtins (AgentMessage (delta t1 (num 0) ''Hi ''))
   \<and> numeric_counter builtins (AgentMessage (delta t1 (num 1) ''there''))
   \<and> numeric_counter builtins (AgentMessage (delta t1 None ''hello''))
   \<and> numeric_counter builtins Disconnect
   \<and> user_messages text_matches_chunks (messages (run builtins
        [AgentMessage (delta t1 (num 0) ''Hi ''), AgentMessage (delta t1 (num 1) ''there''),
         AgentMessage (delta t1 None ''hello''), Disconnect] initial))
   \<and> user_messages chunks_ascending (messages (run builtins
        [AgentMessage (delta t1 (num 0) ''Hi ''), AgentMessage (delta t1 (num 1) ''there''),
         AgentMessage (delta t1 None ''hello''), Disconnect] initial))
   \<and> messages hiThere
       = [\<lparr>role = User, msg_text = ''Hi there'', turnId = Some ''t1'',
            chunks = Some [\<lparr>counter = Fin 0, chunk_text = ''Hi ''\<rparr>,
              \<lparr>counter = Fin 1, chunk_text = ''there''\<rparr>]\<rparr>]"
proof -
  let ?xs = "[AgentMessage (delta t1 (num 0) ''Hi ''), AgentMessage (delta t1 (num 1) ''there''),
         AgentMessage (delta t1 None ''hello''), Disconnect]"
  have i: "user_messages text_matches_chunks (messages initial)"
    "user_messages chunks_ascending (messages initial)"
    "store_numeric (userChunksByTurn initial)"
    by (simp_all add: initial_def user_messages_def store_numeric_def)
  have n: "\<forall>x\<in>set ?xs. numeric_counter builtins x"
    by (simp add: delta_def num_def)
  from user_text_is_concatenation_of_chunks [of initial builtins ?xs] i n
  have "user_messages text_matches_chunks (messages (run builtins ?xs initial))"
    and "user_messages chunks_ascending (messages (run builtins ?xs initial))"
    by blast+
  with i n show ?thesis
    by (simp add: hiThere_state)
qed

text \<open>
  C3 as stated fails on a counter that is a non-numeric string: \<open>Number\<close> turns it into
  \<open>NaN\<close>, which is not \<open>undefined\<close>, so the event takes the aggregating path. A chunk is
  recorded under the key \<open>NaN\<close>, the message has a chunk, and the chunks the turn already
  had are kept.
\<close>

theorem non_numeric_counter_records_chunk:
  "Number_str builtins ''seven'' = NaN
   \<and> userChunksByTurn
        (handleAgentMessage builtins (delta t1 (Some (Str ''seven'')) ''hello'') initial) ''t1''
       = Some [(NaN, ''hello'')]
   \<and> messages (handleAgentMessage builtins (delta t1 (Some (Str ''seven'')) ''hello'') initial)
       = [\<lparr>role = User, msg_text = ''hello'', turnId = Some ''t1'',
            chunks = Some [\<lparr>counter = NaN, chunk_text = ''hello''\<rparr>]\<rparr>]
   \<and> userChunksByTurn
        (handleAgentMessage builtins (delta t1 (Some (Str ''seven'')) ''hello'') hiThere) ''t1''
       = Some [(Fin 0, ''Hi ''), (Fin 1, ''there''), (NaN, ''hello'')]"
proof -
  have n: "Number_str builtins ''seven'' = NaN"
    by (simp add: builtins_def Number_ascii_def digit_of_def)
  have d: "delta_for builtins ''t1'' NaN (delta t1 (Some (Str ''seven'')) ''hello'')"
    using n by (simp add: delta_for_def is_delta_def delta_def t1_def)
  show ?thesis
    unfolding handle_delta_for [OF d]
    by (simp add: n hiThere_state upsertMessage_def setMessages_def upsert_unfold aggregated_def
        turnMapOf_def initial_def delta_def)
qed

text \<open>
  \<^bold>\<open>C3, amended.\<close> A delta event whose turn id is absent or empty, or whose counter is
  missing, takes the fallback path: the turn's entry is removed from the Chunk Store when
  the turn id is non-empty, nothing is recorded, and the message with the event's content
  as text and no chunks replaces, in place, the first user message of that turn when the
  turn id is non-empty and such a message exists, and is appended otherwise. A counter
  that is a string is recorded under whatever \<open>Number\<close> makes of it, on a non-empty turn
  id.
\<close>

theorem fallback_on_missing_turn_or_counter:
  "(is_delta evt \<and> map_option (js_String B) (turn_id evt) = tid
      \<and> (truthy tid = False \<or> delta_counter evt = None) \<longrightarrow>
     userChunksByTurn (handleAgentMessage B evt s)
       = (if truthy tid then (userChunksByTurn s)(the tid := None) else userChunksByTurn s)
     \<and> (truthy tid \<and> (\<exists>m\<in>set (messages s). matches (fallbackMessage tid evt) m) \<longrightarrow>
          (\<exists>i<length (messages s). matches (fallbackMessage tid evt) (messages s ! i)
             \<and> messages (handleAgentMessage B evt s)
                 = (messages s)[i := fallbackMessage tid evt]))
     \<and> (truthy tid = False \<or> (\<forall>m\<in>set (messages s). \<not> matches (fallbackMessage tid evt) m) \<longrightarrow>
          messages (handleAgentMessage B evt s) = messages s @ [fallbackMessage tid evt]))
   \<and> (is_delta evt \<and> map_option (js_String B) (turn_id evt) = Some t \<and> t \<noteq> []
        \<and> delta_counter evt = Some (Str x) \<longrightarrow>
       userChunksByTurn (handleAgentMessage B evt s) t
         = Some (AList.update (Number_str B x) (stringOrEmpty (content evt)) (turnMapOf s t)))"
proof (intro conjI impI)
  assume a: "is_delta evt \<and> map_option (js_String B) (turn_id evt) = tid
      \<and> (truthy tid = False \<or> delta_counter evt = None)"
  then have h: "handleAgentMessage B evt s =
      upsertMessage (fallbackMessage tid evt) True (if truthy tid then clearTurn (the tid) s else s)"
    using update_fallback_path [of B evt tid s] by (simp add: handle_delta fallbackMessage_def)
  show "userChunksByTurn (handleAgentMessage B evt s)
       = (if truthy tid then (userChunksByTurn s)(the tid := None) else userChunksByTurn s)"
    by (simp add: h clearTurn_def)
  have msgs: "messages (handleAgentMessage B evt s)
      = upsertMessage_updater (fallbackMessage tid evt) True (messages s)"
    by (simp add: h clearTurn_def)
  have t: "turnId (fallbackMessage tid evt) = tid" and c: "chunks (fallbackMessage tid evt) \<noteq> None"
    by (simp_all add: fallbackMessage_def)
  {
    assume b: "truthy tid \<and> (\<exists>m\<in>set (messages s). matches (fallbackMessage tid evt) m)"
    then obtain i where i: "i < length (messages s)" "matches (fallbackMessage tid evt) (messages s ! i)"
        "upsertMessage_updater (fallbackMessage tid evt) True (messages s)
           = (messages s)[i := merged (fallbackMessage tid evt) True (messages s ! i)]"
      using upsert_first_match [of "messages s" "fallbackMessage tid evt" True] t
      by auto
    then show "\<exists>i<length (messages s). matches (fallbackMessage tid evt) (messages s ! i)
             \<and> messages (handleAgentMessage B evt s) = (messages s)[i := fallbackMessage tid evt]"
      using merged_replace_full [OF i(2) c] msgs by auto
  }
  {
    assume "truthy tid = False \<or> (\<forall>m\<in>set (messages s). \<not> matches (fallbackMessage tid evt) m)"
    then show "messages (handleAgentMessage B evt s) = messages s @ [fallbackMessage tid evt]"
      using findIndex_None_iff [of "matches (fallbackMessage tid evt)" "messages s"] t
      by (auto simp: msgs upsert_unfold)
  }
next
  assume a: "is_delta evt \<and> map_option (js_String B) (turn_id evt) = Some t \<and> t \<noteq> []
        \<and> delta_counter evt = Some (Str x)"
  then have "delta_for B t (Number_str B x) evt"
    by (simp add: delta_for_def)
  then show "userChunksByTurn (handleAgentMessage B evt s) t
         = Some (AList.update (Number_str B x) (stringOrEmpty (content evt)) (turnMapOf s t))"
    by (simp add: handle_delta_for)
qed

text \<open>
  C3 on the example state: a delta of turn \<open>t1\<close> with no counter clears the turn and
  replaces its message; a delta with no turn id is appended; the string counter \<open>7\<close> is
  recorded under \<open>7\<close>.
\<close>

theorem fallback_on_missing_turn_or_counter_witness:
  "is_delta (delta t1 None ''hello'')
   \<and> userChunksByTurn hiThere ''t1'' = Some [(Fin 0, ''Hi ''), (Fin 1, ''there'')]
   \<and> userChunksByTurn (handleAgentMessage builtins (delta t1 None ''hello'') hiThere) ''t1'' = None
   \<and> messages (handleAgentMessage builtins (delta t1 None ''hello'') hiThere)
       = [\<lparr>role = User, msg_text = ''hello'', turnId = Some ''t1'', chunks = Some []\<rparr>]
   \<and> messages (handleAgentMessage builtins (delta None (num 0) ''again'') hiThere)
       = messages hiThere
           @ [\<lparr>role = User, msg_text = ''again'', turnId = None, chunks = Some []\<rparr>]
   \<and> userChunksByTurn (handleAgentMessage builtins (delta t1 (Some (Str ''7'')) ''x'') initial) ''t1''
       = Some [(Fin 7, ''x'')]"
proof -
  have d: "is_delta (delta t1 None ''hello'')" "is_delta (delta None (num 0) ''again'')"
    "is_delta (delta t1 (Some (Str ''7'')) ''x'')"
    by (simp_all add: is_delta_def delta_def)
  have m: "matches (fallbackMessage (Some ''t1'') (delta t1 None ''hello'')) (messages hiThere ! 0)"
    by (simp add: hiThere_state matches_def fallbackMessage_def)
  have n: "Number_str builtins ''7'' = Fin 7"
    by (simp add: builtins_def Number_ascii_def digit_of_def)
  from fallback_on_missing_turn_or_counter
      [of "delta t1 None ''hello''" builtins "Some ''t1''" hiThere "''t1''" "''7''"]
    fallback_on_missing_turn_or_counter
      [of "delta None (num 0) ''again''" builtins None hiThere "''t1''" "''7''"]
    fallback_on_missing_turn_or_counter
      [of "delta t1 (Some (Str ''7'')) ''x''" builtins "Some ''t1''" initial "''t1''" "''7''"]
    d m n
  show ?thesis
    by (simp add: hiThere_state fallbackMessage_def delta_def t1_def num_def matches_def
        turnMapOf_def initial_def)
qed

text \<open>
  C4 as stated fails on the empty string, a turn id that is not null: two deltas with
  \<open>turn_id\<close> \<open>""\<close> leave two user messages with the same turn id and role, the second
  appended although the first matches it. And \<open>findIndex\<close> stops at the first match: in
  a ledger with two messages of one key, which no handler builds, the older one is
  rewritten and the most recent one is left.
\<close>

theorem empty_turn_id_is_appended:
  "messages (deliver builtins [delta (Some (Str [])) None ''a''] initial)
     = [\<lparr>role = User, msg_text = ''a'', turnId = Some [], chunks = Some []\<rparr>]
   \<and> turnId \<lparr>role = User, msg_text = ''b'', turnId = Some [], chunks = Some []\<rparr> \<noteq> None
   \<and> matches \<lparr>role = User, msg_text = ''b'', turnId = Some [], chunks = Some []\<rparr>
        \<lparr>role = User, msg_text = ''a'', turnId = Some [], chunks = Some []\<rparr>
   \<and> upsertMessage_updater
        \<lparr>role = User, msg_text = ''b'', turnId = Some [], chunks = Some []\<rparr> True
        [\<lparr>role = User, msg_text = ''a'', turnId = Some [], chunks = Some []\<rparr>]
      = [\<lparr>role = User, msg_text = ''a'', turnId = Some [], chunks = Some []\<rparr>,
         \<lparr>role = User, msg_text = ''b'', turnId = Some [], chunks = Some []\<rparr>]
   \<and> messages (deliver builtins
        [delta (Some (Str [])) None ''a'', delta (Some (Str [])) None ''b''] initial)
      = [\<lparr>role = User, msg_text = ''a'', turnId = Some [], chunks = Some []\<rparr>,
         \<lparr>role = User, msg_text = ''b'', turnId = Some [], chunks = Some []\<rparr>]
   \<and> upsertMessage_updater
        \<lparr>role = User, msg_text = ''new'', turnId = Some ''t1'', chunks = Some []\<rparr> True
        [\<lparr>role = User, msg_text = ''old'', turnId = Some ''t1'', chunks = Some []\<rparr>,
         \<lparr>role = User, msg_text = ''recent'', turnId = Some ''t1'', chunks = Some []\<rparr>]
      = [\<lparr>role = User, msg_text = ''new'', turnId = Some ''t1'', chunks = Some []\<rparr>,
         \<lparr>role = User, msg_text = ''recent'', turnId = Some ''t1'', chunks = Some []\<rparr>]"
proof -
  have d: "is_delta (delta (Some (Str [])) None c)" for c
    by (simp add: is_delta_def delta_def)
  have f: "updateUserTranscript builtins (delta (Some (Str [])) None c) s
      = upsertMessage \<lparr>role = User, msg_text = c, turnId = Some [], chunks = Some []\<rparr> True s"
    for c s
    using update_fallback_path [of builtins "delta (Some (Str [])) None c" "Some []" s]
    by (simp add: delta_def)
  show ?thesis
    by (simp add: handle_delta [OF d] f upsertMessage_def setMessages_def upsert_unfold
        matches_def merged_def initial_def)
qed

text \<open>
  \<^bold>\<open>C4, amended.\<close> An upsert of a message with a non-empty turn id, into a ledger with a
  message of the same turn id and role, rewrites the first such message in place (\<open>merged\<close>:
  text replaced or extended, chunks replaced when given) and leaves every other position
  as it was; in a ledger whose keys are unique that message is the only one, so also the
  most recent. With no such message, or with a turn id that is absent or empty, the
  message is appended. Every ledger the handlers build from the initial state has unique
  keys.
\<close>

theorem upsert_updates_match_in_place:
  "((\<exists>m\<in>set prev. matches nxt m) \<and> truthy (turnId nxt) \<longrightarrow>
      (\<exists>i<length prev. matches nxt (prev ! i) \<and> (\<forall>j<i. \<not> matches nxt (prev ! j))
         \<and> upsertMessage_updater nxt replace prev = prev[i := merged nxt replace (prev ! i)]
         \<and> (ledger_keys_unique prev \<longrightarrow> (\<forall>j<length prev. matches nxt (prev ! j) \<longrightarrow> j = i))))
   \<and> ((\<forall>m\<in>set prev. \<not> matches nxt m) \<or> \<not> truthy (turnId nxt) \<longrightarrow>
        upsertMessage_updater nxt replace prev = prev @ [nxt])
   \<and> ledger_keys_unique (messages (run B xs initial))"
proof (intro conjI impI)
  assume a: "(\<exists>m\<in>set prev. matches nxt m) \<and> truthy (turnId nxt)"
  then obtain i where i: "findIndex (matches nxt) prev = Some i"
    using findIndex_None_iff [of "matches nxt" prev] by auto
  then have props: "i < length prev" "matches nxt (prev ! i)" "\<forall>j<i. \<not> matches nxt (prev ! j)"
    by (simp_all add: findIndex_Some_iff)
  moreover have "upsertMessage_updater nxt replace prev = prev[i := merged nxt replace (prev ! i)]"
    using a i by (simp add: upsert_unfold)
  moreover have "ledger_keys_unique prev \<longrightarrow> (\<forall>j<length prev. matches nxt (prev ! j) \<longrightarrow> j = i)"
    using a props unique_match_only [of prev nxt i] by blast
  ultimately show "\<exists>i<length prev. matches nxt (prev ! i) \<and> (\<forall>j<i. \<not> matches nxt (prev ! j))
         \<and> upsertMessage_updater nxt replace prev = prev[i := merged nxt replace (prev ! i)]
         \<and> (ledger_keys_unique prev \<longrightarrow> (\<forall>j<length prev. matches nxt (prev ! j) \<longrightarrow> j = i))"
    by blast
next
  assume "(\<forall>m\<in>set prev. \<not> matches nxt m) \<or> \<not> truthy (turnId nxt)"
  then show "upsertMessage_updater nxt replace prev = prev @ [nxt]"
    using findIndex_None_iff [of "matches nxt" prev] by (auto simp: upsert_unfold)
next
  show "ledger_keys_unique (messages (run B xs initial))"
    by (rule unique_run) (simp add: initial_def ledger_keys_unique_def)
qed

text \<open>C4 on the ledger of the example state after \<open>onConnect\<close>.\<close>

theorem upsert_updates_match_in_place_witness:
  "(\<exists>m\<in>set (messages (onConnect hiThere)). matches (aggregated ''t1'' [(Fin 0, ''Hi!'')]) m)
   \<and> truthy (turnId (aggregated ''t1'' [(Fin 0, ''Hi!'')]))
   \<and> length (upsertMessage_updater (aggregated ''t1'' [(Fin 0, ''Hi!'')]) True
        (messages (onConnect hiThere))) = length (messages (onConnect hiThere))
   \<and> upsertMessage_updater (aggregated ''t1'' [(Fin 0, ''Hi!'')]) True
        (messages (onConnect hiThere))
      = [\<lparr>role = User, msg_text = ''Hi!'', turnId = Some ''t1'',
           chunks = Some [\<lparr>counter = Fin 0, chunk_text = ''Hi!''\<rparr>]\<rparr>,
         \<lparr>role = System, msg_text = ''Connected'', turnId = None, chunks = None\<rparr>]
   \<and> ledger_keys_unique (messages (run builtins
        [AgentMessage (delta t1 (num 0) ''Hi ''), AgentMessage (delta t1 (num 1) ''there''),
         Connect] initial))"
proof -
  let ?nxt = "aggregated ''t1'' [(Fin 0, ''Hi!'')]"
  let ?prev = "messages (onConnect hiThere)"
  have prev: "?prev = [\<lparr>role = User, msg_text = ''Hi there'', turnId = Some ''t1'',
       chunks = Some [\<lparr>counter = Fin 0, chunk_text = ''Hi ''\<rparr>,
         \<lparr>counter = Fin 1, chunk_text = ''there''\<rparr>]\<rparr>,
       \<lparr>role = System, msg_text = ''Connected'', turnId = None, chunks = None\<rparr>]"
    by (simp add: hiThere_state onConnect_def appendSystemMessage_def setMessages_def)
  have m: "\<exists>m\<in>set ?prev. matches ?nxt m"
    by (simp add: prev matches_def)
  have t: "truthy (turnId ?nxt)"
    by simp
  note inst = upsert_updates_match_in_place [of ?prev ?nxt True builtins
      "[AgentMessage (delta t1 (num 0) ''Hi ''), AgentMessage (delta t1 (num 1) ''there''),
        Connect]"]
  from inst m t obtain i where "upsertMessage_updater ?nxt True ?prev
      = ?prev[i := merged ?nxt True (?prev ! i)]"
    by blast
  then have len: "length (upsertMessage_updater ?nxt True ?prev) = length ?prev"
    by simp
  have val: "upsertMessage_updater ?nxt True ?prev
      = [\<lparr>role = User, msg_text = ''Hi!'', turnId = Some ''t1'',
           chunks = Some [\<lparr>counter = Fin 0, chunk_text = ''Hi!''\<rparr>]\<rparr>,
         \<lparr>role = System, msg_text = ''Connected'', turnId = None, chunks = None\<rparr>]"
    unfolding prev by (simp add: upsert_unfold matches_def merged_def aggregated_def)
  from inst have "ledger_keys_unique (messages (run builtins
        [AgentMessage (delta t1 (num 0) ''Hi ''), AgentMessage (delta t1 (num 1) ''there''),
         Connect] initial))"
    by blast
  with m t len val show ?thesis
    by blast
qed

text \<open>
  C5 as stated fails for the ledger: after \<open>onDisconnect\<close> the messages are all there,
  followed by the system message \<open>Disconnected\<close>.
\<close>

theorem disconnect_keeps_ledger:
  "messages (onDisconnect hiThere)
     = messages hiThere
         @ [\<lparr>role = System, msg_text = ''Disconnected'', turnId = None, chunks = None\<rparr>]
   \<and> messages (onDisconnect hiThere) \<noteq> []
   \<and> messages (onDisconnect initial) \<noteq> []"
  by (simp add: onDisconnect_def appendSystemMessage_def setMessages_def)

text \<open>
  \<^bold>\<open>C5, amended.\<close> \<open>onDisconnect\<close> clears the Chunk Store, keeps the ledger and appends the
  system message \<open>Disconnected\<close> to it. The ledger is cleared by \<open>handleConnectClick\<close>,
  when a connection can be attempted: it empties the Chunk Store and the ledger, which
  then holds nothing, or the failure message when \<open>connect()\<close> throws.
\<close>

theorem disconnect_clears_chunks_not_ledger:
  "userChunksByTurn (onDisconnect s) = Map.empty
   \<and> messages (onDisconnect s)
       = messages s @ [\<lparr>role = System, msg_text = ''Disconnected'', turnId = None, chunks = None\<rparr>]
   \<and> (canConnect agentStatus s \<longrightarrow>
        userChunksByTurn (handleConnectClick agentStatus r s) = Map.empty
        \<and> messages (handleConnectClick agentStatus (Returns ()) s) = []
        \<and> messages (handleConnectClick agentStatus (Throws m) s)
            = [\<lparr>role = System, msg_text = ''Failed to connect: '' @ m, turnId = None,
                 chunks = None\<rparr>])"
  by (auto simp: onDisconnect_def appendSystemMessage_def setMessages_def
      handleConnectClick_def Let_def split: outcome.splits)

text \<open>C5 on the example state: disconnect, then a click on Connect.\<close>

theorem disconnect_clears_chunks_not_ledger_witness:
  "userChunksByTurn hiThere ''t1'' = Some [(Fin 0, ''Hi ''), (Fin 1, ''there'')]
   \<and> userChunksByTurn (onDisconnect hiThere) = Map.empty
   \<and> length (messages (onDisconnect hiThere)) = 2
   \<and> canConnect ''disconnected'' (onDisconnect hiThere)
   \<and> messages (handleConnectClick ''disconnected'' (Returns ()) (onDisconnect hiThere)) = []
   \<and> userChunksByTurn (handleConnectClick ''disconnected'' (Returns ()) (onDisconnect hiThere))
       = Map.empty"
proof -
  have c: "canConnect ''disconnected'' (onDisconnect hiThere)"
    by (simp add: canConnect_def onDisconnect_def appendSystemMessage_def setMessages_def)
  from disconnect_clears_chunks_not_ledger
      [of hiThere "''disconnected''" "Returns ()" "''x''"]
    disconnect_clears_chunks_not_ledger
      [of "onDisconnect hiThere" "''disconnected''" "Returns ()" "''x''"] c
  show ?thesis
    by (simp add: hiThere_state)
qed

text \<open>
  \<^bold>\<open>C6.\<close> Once the API key and the \<open>agent_id\<close> are there, so that the route calls the
  upstream service, every failure of that exchange (a \<open>fetch\<close> that throws, a response
  that is not ok, a body that cannot be read) comes back as a response, not as an
  exception: status 402 with the error code \<open>insufficient_balance\<close> when the message of
  the failure contains that substring, and status 500 with the message itself when it
  does not.
\<close>

theorem authorization_failure_is_structured:
  assumes "apiKey = Some key" and "key \<noteq> []"
    and "request_json = Returns requestBody" and "json_truthy requestBody"
    and "agent_id_of requestBody = Some a" and "json_truthy a"
    and "authorize_session fetch key requestBody = Throws message"
  shows "POST apiKey request_json fetch =
           Returns (if (\<exists>u v. message = u @ ''insufficient_balance'' @ v)
                    then \<lparr>data = JObject [(''error'', JString ''insufficient_balance'')],
                           status = 402, init_statusText = ''insufficient_balance''\<rparr>
                    else \<lparr>data = JObject [(''error'', JString message)],
                           status = 500, init_statusText = []\<rparr>)"
proof -
  have "js_includes message ''insufficient_balance'' \<Longrightarrow> message \<noteq> []"
    by auto
  then show ?thesis
    using assms js_includes_iff [of message "''insufficient_balance''"]
    by (auto simp: POST_def)
qed

text \<open>C6 on an upstream that reports insufficient funds and on one that cannot be reached.\<close>

theorem authorization_failure_is_structured_witness:
  "json_truthy agentRequest \<and> agent_id_of agentRequest = Some (JString ''agent-1'')
   \<and> authorize_session insufficientFunds ''key'' agentRequest
       = Throws ''error: insufficient_balance for organization''
   \<and> POST (Some ''key'') (Returns agentRequest) insufficientFunds
       = Returns \<lparr>data = JObject [(''error'', JString ''insufficient_balance'')],
           status = 402, init_statusText = ''insufficient_balance''\<rparr>
   \<and> authorize_session unreachable ''key'' agentRequest = Throws ''fetch failed''
   \<and> POST (Some ''key'') (Returns agentRequest) unreachable
       = Returns \<lparr>data = JObject [(''error'', JString ''fetch failed'')],
           status = 500, init_statusText = []\<rparr>"
proof -
  have a: "json_truthy agentRequest" "agent_id_of agentRequest = Some (JString ''agent-1'')"
    "json_truthy (JString ''agent-1'')"
    by (simp_all add: agentRequest_def)
  have t1: "authorize_session insufficientFunds ''key'' agentRequest
       = Throws ''error: insufficient_balance for organization''"
    by (simp add: authorize_session_def insufficientFunds_def)
  have t2: "authorize_session unreachable ''key'' agentRequest = Throws ''fetch failed''"
    by (simp add: authorize_session_def unreachable_def)
  have i1: "js_includes ''error: insufficient_balance for organization'' ''insufficient_balance''"
    by simp
  have i2: "\<not> js_includes ''fetch failed'' ''insufficient_balance''"
    by simp
  from authorization_failure_is_structured [OF refl _ refl a t1]
    authorization_failure_is_structured [OF refl _ refl a t2]
    i1 i2 a t1 t2
  show ?thesis
    by (simp add: js_includes_iff)
qed

text \<open>
  \<^bold>\<open>C7.\<close> Two delta events that record a chunk for the same turn under the same counter:
  after both, the state is the one the second alone would have left, and the turn holds
  the second text at that counter.
\<close>

theorem last_write_wins_per_counter:
  assumes "delta_for B tid c d1" and "delta_for B tid c d2"
  shows "handleAgentMessage B d2 (handleAgentMessage B d1 s) = handleAgentMessage B d2 s
         \<and> map_of (turnMapOf (handleAgentMessage B d2 (handleAgentMessage B d1 s)) tid) c
             = Some (stringOrEmpty (content d2))"
proof -
  let ?m1 = "AList.update c (stringOrEmpty (content d1)) (turnMapOf s tid)"
  let ?m2 = "AList.update c (stringOrEmpty (content d2)) (turnMapOf s tid)"
  have tid: "tid \<noteq> []" using assms(1) by (simp add: delta_for_def)
  have m: "AList.update c (stringOrEmpty (content d2)) ?m1 = ?m2"
    by (simp add: update_last)
  have ups: "upsertMessage_updater (aggregated tid ?m2) True
               (upsertMessage_updater (aggregated tid ?m1) True (messages s))
             = upsertMessage_updater (aggregated tid ?m2) True (messages s)"
    using tid by (intro upsert_replace_twice) (simp_all add: matches_def)
  have tm1: "turnMapOf (handleAgentMessage B d1 s) tid = ?m1"
    by (simp add: handle_delta_for [OF assms(1)])
  have s2: "handleAgentMessage B d2 (handleAgentMessage B d1 s) =
      upsertMessage (aggregated tid ?m2) True
        ((handleAgentMessage B d1 s)\<lparr>userChunksByTurn :=
           (userChunksByTurn (handleAgentMessage B d1 s))(tid \<mapsto> ?m2)\<rparr>)"
    by (simp add: handle_delta_for [OF assms(2)] tm1 m)
  have eq: "handleAgentMessage B d2 (handleAgentMessage B d1 s) = handleAgentMessage B d2 s"
    unfolding s2 unfolding handle_delta_for [OF assms(1)] handle_delta_for [OF assms(2)]
    by (simp add: upsertMessage_def setMessages_def ups)
  have "map_of (turnMapOf (handleAgentMessage B d2 s) tid) c = Some (stringOrEmpty (content d2))"
    by (simp add: handle_delta_for [OF assms(2)] update_conv')
  with eq show ?thesis by simp
qed

text \<open>
  C7 on counter \<open>1\<close> of turn \<open>t1\<close>, written first as the number \<open>1\<close> and then as the
  string \<open>1\<close>.
\<close>

theorem last_write_wins_per_counter_witness:
  "delta_for builtins ''t1'' (Fin 1) (delta t1 (num 1) ''their'')
   \<and> delta_for builtins ''t1'' (Fin 1) (delta t1 (Some (Str ''1'')) ''there'')
   \<and> handleAgentMessage builtins (delta t1 (Some (Str ''1'')) ''there'')
        (handleAgentMessage builtins (delta t1 (num 1) ''their'')
          (handleAgentMessage builtins (delta t1 (num 0) ''Hi '') initial))
      = hiThere
   \<and> map_of (turnMapOf (handleAgentMessage builtins (delta t1 (Some (Str ''1'')) ''there'')
        (handleAgentMessage builtins (delta t1 (num 1) ''their'')
          (handleAgentMessage builtins (delta t1 (num 0) ''Hi '') initial))) ''t1'') (Fin 1)
      = Some ''there''"
proof -
  let ?s = "handleAgentMessage builtins (delta t1 (num 0) ''Hi '') initial"
  have n: "Number_str builtins ''1'' = Fin 1"
    by (simp add: builtins_def Number_ascii_def digit_of_def)
  have d0: "delta_for builtins ''t1'' (Fin 0) (delta t1 (num 0) ''Hi '')"
    and d1: "delta_for builtins ''t1'' (Fin 1) (delta t1 (num 1) ''their'')"
    and d2: "delta_for builtins ''t1'' (Fin 1) (delta t1 (Some (Str ''1'')) ''there'')"
    using n by (simp_all add: delta_for_def is_delta_def delta_def t1_def num_def)
  have "handleAgentMessage builtins (delta t1 (Some (Str ''1'')) ''there'') ?s = hiThere"
    unfolding hiThere_state unfolding handle_delta_for [OF d0] handle_delta_for [OF d2]
    by (simp add: upsertMessage_def setMessages_def upsert_unfold aggregated_def turnMapOf_def
        initial_def sortedChunks_def js_sort_def delta_def matches_def merged_def)
  with last_write_wins_per_counter [OF d1 d2, of ?s] d1 d2 show ?thesis
    by (simp add: delta_def hiThere_state turnMapOf_def)
qed

text \<open>
  \<^bold>\<open>C8.\<close> A \<open>turn.end\<close> event with a turn id removes the turn's entry from the Chunk Store
  and leaves the ledger as it is. A delta event that then records a chunk for the same
  turn finds no earlier chunk: the turn holds that chunk alone, and the user message of
  the turn is that chunk.
\<close>

theorem turn_end_clears_turn:
  assumes "type evt = Some ''turn.end''" and "turn_id evt = Some i" and "js_String B i = tid"
  shows "userChunksByTurn (handleAgentMessage B evt s) = (userChunksByTurn s)(tid := None)
         \<and> messages (handleAgentMessage B evt s) = messages s
         \<and> (delta_for B tid c d \<longrightarrow>
              userChunksByTurn (handleAgentMessage B d (handleAgentMessage B evt s)) tid
                = Some [(c, stringOrEmpty (content d))]
              \<and> findMessage tid User (messages (handleAgentMessage B d (handleAgentMessage B evt s)))
                = Some \<lparr>role = User, msg_text = stringOrEmpty (content d), turnId = Some tid,
                    chunks = Some [\<lparr>counter = c, chunk_text = stringOrEmpty (content d)\<rparr>]\<rparr>)"
proof -
  have ended: "handleAgentMessage B evt s = clearTurn tid s"
    using assms by (simp add: handleAgentMessage_def)
  have empty: "turnMapOf (clearTurn tid s) tid = []"
    by (simp add: turnMapOf_def clearTurn_def)
  have after: "userChunksByTurn (handleAgentMessage B d (clearTurn tid s)) tid
        = Some [(c, stringOrEmpty (content d))]
      \<and> findMessage tid User (messages (handleAgentMessage B d (clearTurn tid s)))
        = Some (aggregated tid [(c, stringOrEmpty (content d))])"
    if d: "delta_for B tid c d"
  proof -
    have "tid \<noteq> []" using d by (simp add: delta_for_def)
    then show ?thesis
      using findMessage_upsert [of "aggregated tid [(c, stringOrEmpty (content d))]" tid]
      by (simp add: handle_delta_for [OF d] empty)
  qed
  have "userChunksByTurn (clearTurn tid s) = (userChunksByTurn s)(tid := None)"
    and "messages (clearTurn tid s) = messages s"
    by (simp_all add: clearTurn_def)
  with after show ?thesis
    by (simp add: ended aggregated_def)
qed

text \<open>C8 on the example state.\<close>

theorem turn_end_clears_turn_witness:
  "type (turn_end (Str ''t1'')) = Some ''turn.end''
   \<and> delta_for builtins ''t1'' (Fin 5) (delta t1 (num 5) ''Bye'')
   \<and> userChunksByTurn hiThere ''t1'' = Some [(Fin 0, ''Hi ''), (Fin 1, ''there'')]
   \<and> userChunksByTurn (handleAgentMessage builtins (turn_end (Str ''t1'')) hiThere) ''t1'' = None
   \<and> messages (handleAgentMessage builtins (turn_end (Str ''t1'')) hiThere) = messages hiThere
   \<and> userChunksByTurn (handleAgentMessage builtins (delta t1 (num 5) ''Bye'')
        (handleAgentMessage builtins (turn_end (Str ''t1'')) hiThere)) ''t1''
      = Some [(Fin 5, ''Bye'')]
   \<and> findMessage ''t1'' User (messages (handleAgentMessage builtins (delta t1 (num 5) ''Bye'')
        (handleAgentMessage builtins (turn_end (Str ''t1'')) hiThere)))
      = Some \<lparr>role = User, msg_text = ''Bye'', turnId = Some ''t1'',
          chunks = Some [\<lparr>counter = Fin 5, chunk_text = ''Bye''\<rparr>]\<rparr>"
proof -
  have e: "type (turn_end (Str ''t1'')) = Some ''turn.end''"
    "turn_id (turn_end (Str ''t1'')) = Some (Str ''t1'')"
    by (simp_all add: turn_end_def)
  have d: "delta_for builtins ''t1'' (Fin 5) (delta t1 (num 5) ''Bye'')"
    by (simp add: delta_for_def is_delta_def delta_def t1_def num_def)
  have c: "stringOrEmpty (content (delta t1 (num 5) ''Bye'')) = ''Bye''"
    by (simp add: delta_def)
  from turn_end_clears_turn [OF e, of builtins "''t1''" hiThere "Fin 5" "delta t1 (num 5) ''Bye''"]
    e d c
  show ?thesis
    by (simp add: hiThere_state)
qed

text \<open>
  \<^bold>\<open>C9.\<close> An event whose type is absent, or is none of \<open>turn.end\<close>,
  \<open>user.transcript.delta\<close>, \<open>user.transcript.interim_delta\<close> and \<open>response.text\<close>, leaves
  the whole state, ledger and Chunk Store included, unchanged.
\<close>

theorem unrecognised_event_is_dropped:
  assumes "type evt \<noteq> Some ''turn.end''"
    and "type evt \<noteq> Some ''user.transcript.delta''"
    and "type evt \<noteq> Some ''user.transcript.interim_delta''"
    and "type evt \<noteq> Some ''response.text''"
  shows "handleAgentMessage B evt s = s"
  using assms by (simp add: handleAgentMessage_def)

text \<open>C9 on an event with no type and on an event of type \<open>response.audio\<close>.\<close>

theorem unrecognised_event_is_dropped_witness:
  "handleAgentMessage builtins
     \<lparr>type = None, turn_id = Some (Str ''t1''), delta_counter = Some (Num (Fin 0)),
      content = Some ''x''\<rparr>
     (handleAgentMessage builtins (delta (Some (Str ''t1'')) (Some (Num (Fin 0))) ''hi'') initial)
   = handleAgentMessage builtins (delta (Some (Str ''t1'')) (Some (Num (Fin 0))) ''hi'') initial
   \<and> handleAgentMessage builtins
     \<lparr>type = Some ''response.audio'', turn_id = Some (Str ''t1''), delta_counter = None,
      content = Some ''x''\<rparr> initial = initial"
  using unrecognised_event_is_dropped [of "\<lparr>type = None, turn_id = Some (Str ''t1''), delta_counter = Some (Num (Fin 0)),
      content = Some ''x''\<rparr>" builtins "handleAgentMessage builtins (delta (Some (Str ''t1'')) (Some (Num (Fin 0))) ''hi'') initial"]
   unrecognised_event_is_dropped [of "\<lparr>type = Some ''response.audio'', turn_id = Some (Str ''t1''), delta_counter = None,
      content = Some ''x''\<rparr>" builtins initial]
  by simp

text \<open>
  \<^bold>\<open>C10.\<close> An event with the numeric turn id \<open>n\<close> and the same event with the string
  \<open>String(n)\<close> as turn id are handled alike, whatever the type of the event: they lead
  to the same state, so they address the same turn of the Chunk Store and the same key of
  the ledger.
\<close>

theorem turn_id_string_coercion:
  "handleAgentMessage B (evt\<lparr>turn_id := Some (Num n)\<rparr>) s
     = handleAgentMessage B (evt\<lparr>turn_id := Some (Str (String_num B n))\<rparr>) s"
  by (simp add: handleAgentMessage_def updateUserTranscript_def appendAssistantMessage_def)

text \<open>C10 on the turn id \<open>7\<close>.\<close>

theorem turn_id_string_coercion_witness:
  "String_num builtins (Fin 7) = ''7''
   \<and> handleAgentMessage builtins (delta (Some (Num (Fin 7))) (num 0) ''x'') initial
      = handleAgentMessage builtins (delta (Some (Str ''7'')) (num 0) ''x'') initial
   \<and> userChunksByTurn
        (handleAgentMessage builtins (delta (Some (Num (Fin 7))) (num 0) ''x'') initial) ''7''
      = Some [(Fin 0, ''x'')]"
proof -
  have s: "String_num builtins (Fin 7) = ''7''"
    by (simp add: builtins_def)
  have d: "delta_for builtins ''7'' (Fin 0) (delta (Some (Str ''7'')) (num 0) ''x'')"
    by (simp add: delta_for_def is_delta_def delta_def num_def)
  have u: "delta (Some (Num (Fin 7))) (num 0) ''x''
      = (delta (Some (Str ''7'')) (num 0) ''x'')\<lparr>turn_id := Some (Num (Fin 7))\<rparr>"
    "delta (Some (Str ''7'')) (num 0) ''x''
      = (delta (Some (Str ''7'')) (num 0) ''x'')\<lparr>turn_id := Some (Str ''7'')\<rparr>"
    by (simp_all add: delta_def)
  have eq: "handleAgentMessage builtins (delta (Some (Num (Fin 7))) (num 0) ''x'') initial
      = handleAgentMessage builtins (delta (Some (Str ''7'')) (num 0) ''x'') initial"
    using turn_id_string_coercion
      [where B = builtins and evt = "delta (Some (Str ''7'')) (num 0) ''x''" and n = "Fin 7"
         and s = initial]
    unfolding s u [symmetric] .
  have "userChunksByTurn
        (handleAgentMessage builtins (delta (Some (Str ''7'')) (num 0) ''x'') initial) ''7''
      = Some [(Fin 0, ''x'')]"
    unfolding handle_delta_for [OF d]
    by (simp add: turnMapOf_def initial_def delta_def)
  with s eq show ?thesis
    by simp
qed

end
